theory Spec2Isabelle
  imports Main "HOL-Library.Sublist"
begin

section \<open>Text, errors and the romanization tables\<close>

text \<open>
  A Python \<^verbatim>\<open>str\<close> is a sequence of Unicode code points. A code point is a natural
  number; a text is a list of them. The romanization tables of \<^verbatim>\<open>romanize.py\<close> hold ASCII
  strings, written here as HOL strings and read as texts through \<open>ustr\<close>.
\<close>

type_synonym cp = nat
type_synonym ustring = "cp list"

definition ustr :: "string \<Rightarrow> ustring" where
  "ustr s = map of_char s"

datatype py_error = TypeError | IndexError

definition REVISED_INITIALS :: "string list" where
  "REVISED_INITIALS = [''g'', ''kk'', ''n'', ''d'', ''tt'', ''l'', ''m'', ''b'', ''pp'', ''s'',
     ''ss'', '''', ''j'', ''jj'', ''ch'', ''k'', ''t'', ''p'', ''h'']"

definition REVISED_VOWELS :: "string list" where
  "REVISED_VOWELS = [''a'', ''ae'', ''ya'', ''yae'', ''eo'', ''e'', ''yeo'', ''ye'', ''o'', ''wa'',
     ''wae'', ''oe'', ''yo'', ''u'', ''wo'', ''we'', ''wi'', ''yu'', ''eu'', ''ui'', ''i'']"

definition REVISED_FINALS :: "string list" where
  "REVISED_FINALS = ['''', ''g'', ''kk'', ''gs'', ''n'', ''nj'', ''nh'', ''d'', ''l'', ''lg'',
     ''lm'', ''lb'', ''ls'', ''lt'', ''lp'', ''lh'', ''m'', ''b'', ''bs'', ''s'', ''ss'', ''ng'',
     ''j'', ''ch'', ''k'', ''t'', ''p'', ''h'']"

text \<open>
  Indexing a Python tuple with an integer: a negative index counts from the end, an index
  out of range raises \<^verbatim>\<open>IndexError\<close>.
\<close>

definition tuple_get :: "'a list \<Rightarrow> int \<Rightarrow> py_error + 'a" where
  "tuple_get xs i =
     (if 0 \<le> i \<and> i < int (length xs) then Inr (xs ! nat i)
      else if i < 0 \<and> - int (length xs) \<le> i then Inr (xs ! nat (int (length xs) + i))
      else Inl IndexError)"

section \<open>The Syllable view\<close>

text \<open>
  \<^verbatim>\<open>class Syllable\<close>: the only field is \<^verbatim>\<open>code\<close>; \<^verbatim>\<open>index\<close>, \<^verbatim>\<open>initial\<close>, \<^verbatim>\<open>vowel\<close> and
  \<^verbatim>\<open>final\<close> are read-only properties computed from it. Python's \<^verbatim>\<open>//\<close> and \<^verbatim>\<open>%\<close> round towards
  minus infinity, as \<open>div\<close> and \<open>mod\<close> on \<open>int\<close> do.
\<close>

record syllable =
  code :: int

definition Syllable_MIN :: int where
  "Syllable_MIN = 0xAC00"

definition Syllable_MAX :: int where
  "Syllable_MAX = 0xD7A3"

text \<open>
  \<^verbatim>\<open>Syllable.__init__(char=None, code=None)\<close>. Every failure is a \<^verbatim>\<open>TypeError\<close>: the two
  explicit raises for the keyword arguments, \<^verbatim>\<open>ord\<close> of a string that is not one character
  long, the comparison of \<^verbatim>\<open>None\<close> with an integer when \<^verbatim>\<open>char\<close> is the empty string, and the
  range check.
\<close>

definition Syllable_init :: "ustring option \<Rightarrow> int option \<Rightarrow> py_error + syllable" where
  "Syllable_init char code_arg =
     (if char = None \<and> code_arg = None then Inl TypeError
      else if char \<noteq> None \<and> code_arg \<noteq> None then Inl TypeError
      else
        (case (case char of
                 Some (c # cs) \<Rightarrow> (if cs = [] then Inr (Some (int c)) else Inl TypeError)
               | _ \<Rightarrow> Inr code_arg)
         of Inl e \<Rightarrow> Inl e
          | Inr None \<Rightarrow> Inl TypeError
          | Inr (Some k) \<Rightarrow>
              (if \<not> (Syllable_MIN \<le> k \<and> k \<le> Syllable_MAX) then Inl TypeError
               else Inr \<lparr>code = k\<rparr>)))"

definition index :: "syllable \<Rightarrow> int" where
  "index s = code s - Syllable_MIN"

definition initial :: "syllable \<Rightarrow> int" where
  "initial s = index s div 588"

definition vowel :: "syllable \<Rightarrow> int" where
  "vowel s = (index s div 28) mod 21"

definition final :: "syllable \<Rightarrow> int" where
  "final s = index s mod 28"

section \<open>The set of ambiguous final + initial concatenations\<close>

text \<open>
  \<^verbatim>\<open>academic_ambiguous_patterns()\<close>. The inner \<^verbatim>\<open>for i in range(len(combined))\<close> is
  \<open>split_scan\<close> over the list of split points \<open>[0..<length combined]\<close>; its state is the
  flag \<^verbatim>\<open>check\<close> and its result tells whether \<^verbatim>\<open>result.add(combined)\<close> is reached (after
  which the loop breaks). The outer loop runs over \<^verbatim>\<open>itertools.product\<close> of the two tables
  and threads the Python set \<^verbatim>\<open>result\<close>.
\<close>

fun split_scan :: "string \<Rightarrow> nat list \<Rightarrow> bool \<Rightarrow> bool" where
  "split_scan combined [] check = False"
| "split_scan combined (i # is) check =
     (let head = take i combined; tail = drop i combined
      in if head \<in> set REVISED_FINALS \<and> tail \<in> set REVISED_INITIALS
         then (if \<not> check then split_scan combined is True else True)
         else split_scan combined is check)"

definition academic_ambiguous_patterns :: "string set" where
  "academic_ambiguous_patterns =
     fold (\<lambda>(final, initial) result.
             let combined = final @ initial
             in if split_scan combined [0..<length combined] False
                then insert combined result else result)
          (List.product REVISED_FINALS REVISED_INITIALS) {}"

definition ACADEMIC_AMBIGUOUS_PATTERNS :: "string set" where
  "ACADEMIC_AMBIGUOUS_PATTERNS = academic_ambiguous_patterns"

text \<open>The test of the inner loop at split point \<open>i\<close>.\<close>

definition valid_split :: "string \<Rightarrow> nat \<Rightarrow> bool" where
  "valid_split combined i \<longleftrightarrow>
     take i combined \<in> set REVISED_FINALS \<and> drop i combined \<in> set REVISED_INITIALS"

section \<open>The academic rule and the transliterator\<close>

text \<open>
  An element of the sliding window is the pair \<^verbatim>\<open>(c, Syllable(c))\<close> or \<^verbatim>\<open>(c, None)\<close> built by
  \<^verbatim>\<open>translit\<close>; before the first character it is \<^verbatim>\<open>(None, None)\<close>. A rule takes \<^verbatim>\<open>now\<close> and
  the keyword arguments \<^verbatim>\<open>pre\<close> and \<^verbatim>\<open>post\<close> and returns a string or \<^verbatim>\<open>None\<close>.
\<close>

type_synonym element = "cp option \<times> syllable option"

type_synonym rule = "element \<Rightarrow> element \<Rightarrow> element \<Rightarrow> py_error + ustring option"

text \<open>Sequencing of computations that may raise.\<close>

definition and_then :: "py_error + 'a \<Rightarrow> ('a \<Rightarrow> py_error + 'b) \<Rightarrow> py_error + 'b" where
  "and_then r f = (case r of Inl e \<Rightarrow> Inl e | Inr v \<Rightarrow> f v)"

text \<open>
  \<^verbatim>\<open>academic(now, pre, **options)\<close>. A Syllable object is always truthy, and \<^verbatim>\<open>pre\<close> is a
  (non-empty) tuple, so \<^verbatim>\<open>ps\<close> is its second component. The marker is computed first, with
  the table look-ups in the order of the source; then the romanization is built.
\<close>

definition academic :: rule where
  "academic now pre post =
     (case now of (c, s_opt) \<Rightarrow>
        (case s_opt of
           None \<Rightarrow> Inr (map_option (\<lambda>ch. [ch]) c)
         | Some s \<Rightarrow>
             (let ps = snd pre
              in and_then
                   (case ps of
                      None \<Rightarrow> Inr False
                    | Some p \<Rightarrow>
                        (if initial s = 11 then Inr True
                         else and_then (tuple_get REVISED_FINALS (final p)) (\<lambda>f.
                              and_then (tuple_get REVISED_INITIALS (initial s)) (\<lambda>i.
                              Inr (f @ i \<in> ACADEMIC_AMBIGUOUS_PATTERNS)))))
                   (\<lambda>marker.
                      and_then (tuple_get REVISED_INITIALS (initial s)) (\<lambda>i.
                      and_then (tuple_get REVISED_VOWELS (vowel s)) (\<lambda>v.
                      and_then (tuple_get REVISED_FINALS (final s)) (\<lambda>f.
                      Inr (Some (ustr ((if marker then ''-'' else '''') @ i @ v @ f))))))))))"

text \<open>
  The body of \<^verbatim>\<open>try: post = c, Syllable(c)  except TypeError: post = c, None\<close>.
\<close>

definition make_post :: "cp \<Rightarrow> py_error + element" where
  "make_post c =
     (case Syllable_init (Some [c]) None of
        Inr s \<Rightarrow> Inr (Some c, Some s)
      | Inl TypeError \<Rightarrow> Inr (Some c, None)
      | Inl e \<Rightarrow> Inl e)"

text \<open>
  \<^verbatim>\<open>result.append(out)\<close> when the rule's output is not \<^verbatim>\<open>None\<close>.
\<close>

definition append_out :: "ustring list \<Rightarrow> ustring option \<Rightarrow> ustring list" where
  "append_out result out = (case out of None \<Rightarrow> result | Some r \<Rightarrow> result @ [r])"

text \<open>
  The \<^verbatim>\<open>for c in text\<close> loop of \<^verbatim>\<open>Transliter.translit\<close>, with its state
  \<^verbatim>\<open>(result, pre, now)\<close>.
\<close>

fun translit_loop ::
  "rule \<Rightarrow> ustring \<Rightarrow> ustring list \<times> element \<times> element
     \<Rightarrow> py_error + (ustring list \<times> element \<times> element)" where
  "translit_loop rule [] st = Inr st"
| "translit_loop rule (c # cs) (result, pre, now) =
     and_then (make_post c) (\<lambda>post.
     and_then (if fst now \<noteq> None
               then and_then (rule now pre post) (\<lambda>out. Inr (append_out result out))
               else Inr result) (\<lambda>result'.
     translit_loop rule cs (result', now, post)))"

text \<open>
  \<^verbatim>\<open>Transliter(rule).translit(text)\<close>. After the loop \<^verbatim>\<open>now\<close> is a tuple, so the test
  \<^verbatim>\<open>now is not None\<close> always holds and the rule is called once more, also on the empty text.
\<close>

definition translit :: "rule \<Rightarrow> ustring \<Rightarrow> py_error + ustring" where
  "translit rule text =
     and_then (translit_loop rule text ([], (None, None), (None, None))) (\<lambda>(result, pre, now).
     and_then (rule now pre (None, None)) (\<lambda>out.
     Inr (concat (append_out result out))))"

text \<open>The class invariant of a Syllable, established by its constructor.\<close>

definition valid_syllable :: "syllable \<Rightarrow> bool" where
  "valid_syllable s \<longleftrightarrow> Syllable_MIN \<le> code s \<and> code s \<le> Syllable_MAX"

section \<open>Auxiliary notions for the transliterator\<close>

text \<open>
  The following definitions are used to state and prove properties of \<open>academic\<close> and
  \<open>translit\<close>: the plain romanization of a syllable, the marker condition of the rule, the
  element built for a character, and the output of the rule position by position.
\<close>

definition romanization :: "syllable \<Rightarrow> string" where
  "romanization s = REVISED_INITIALS ! nat (initial s) @ REVISED_VOWELS ! nat (vowel s)
                    @ REVISED_FINALS ! nat (final s)"

definition marker_needed :: "syllable option \<Rightarrow> syllable \<Rightarrow> bool" where
  "marker_needed ps s \<longleftrightarrow>
     (case ps of None \<Rightarrow> False
      | Some p \<Rightarrow> initial s = 11
          \<or> REVISED_FINALS ! nat (final p) @ REVISED_INITIALS ! nat (initial s)
               \<in> ACADEMIC_AMBIGUOUS_PATTERNS)"

definition element_of :: "cp \<Rightarrow> element" where
  "element_of c = (Some c, if Syllable_MIN \<le> int c \<and> int c \<le> Syllable_MAX
                           then Some \<lparr>code = int c\<rparr> else None)"

definition academic_out :: "element \<Rightarrow> cp \<Rightarrow> ustring" where
  "academic_out pre c =
     (case snd (element_of c) of
        None \<Rightarrow> [c]
      | Some s \<Rightarrow> ustr ((if marker_needed (snd pre) s then ''-'' else '''') @ romanization s))"

fun academic_outs :: "element \<Rightarrow> ustring \<Rightarrow> ustring list" where
  "academic_outs pre [] = []"
| "academic_outs pre (c # cs) = academic_out pre c # academic_outs (element_of c) cs"

definition valid_element :: "element \<Rightarrow> bool" where
  "valid_element e \<longleftrightarrow> (\<forall>p. snd e = Some p \<longrightarrow> valid_syllable p)"

definition finish :: "ustring list \<times> element \<times> element \<Rightarrow> py_error + ustring" where
  "finish st = (case st of (result, pre, now) \<Rightarrow>
     and_then (academic now pre (None, None)) (\<lambda>out. Inr (concat (append_out result out))))"
section \<open>Regular-expression substitution over jamo strings\<close>

text \<open>
  The rules of \<^verbatim>\<open>g2p/special.py\<close> rewrite a jamo string with \<^verbatim>\<open>re.sub\<close> and
  \<^verbatim>\<open>str.replace\<close>. Both scan the string from left to right, try the pattern at the current
  position, and on a match emit the replacement and continue after the matched text;
  otherwise they copy one character and move on. A pattern is modelled by a matcher: applied
  to the rest of the string it returns \<open>None\<close>, or \<open>Some (r, k)\<close> when the pattern matches
  the first \<open>k\<close> characters and \<open>r\<close> is the replacement with the groups filled in.
  No pattern of \<^verbatim>\<open>special.py\<close> matches the empty string, so \<open>k\<close> is at least one and
  nothing matches at the end of the string.
\<close>

type_synonym matcher = "ustring \<Rightarrow> (ustring \<times> nat) option"

fun re_sub :: "matcher \<Rightarrow> ustring \<Rightarrow> ustring" where
  "re_sub m [] = []"
| "re_sub m (x # xs) =
     (case m (x # xs) of
        None \<Rightarrow> x # re_sub m xs
      | Some (r, k) \<Rightarrow> r @ re_sub m (drop (k - 1) xs))"

text \<open>A pattern without metacharacters, as in \<^verbatim>\<open>re.sub("...", "...", inp)\<close>.\<close>

definition literal_pat :: "ustring \<Rightarrow> ustring \<Rightarrow> matcher" where
  "literal_pat old new xs = (if prefix old xs then Some (new, length old) else None)"

text \<open>\<^verbatim>\<open>inp.replace(old, new)\<close> for a non-empty \<^verbatim>\<open>old\<close>.\<close>

definition str_replace :: "ustring \<Rightarrow> ustring \<Rightarrow> ustring \<Rightarrow> ustring" where
  "str_replace old new inp = re_sub (literal_pat old new) inp"


section \<open>The special rules\<close>

text \<open>
  Every rule has the signature \<^verbatim>\<open>(inp, *, descriptive=False, verbose=False)\<close>. The look-up
  \<^verbatim>\<open>rule_id2text[...]\<close> and the call of \<^verbatim>\<open>gloss\<close> (both from \<^verbatim>\<open>g2p/utils.py\<close>) serve the
  verbose trace only and do not enter the returned string, so the model keeps \<^verbatim>\<open>inp\<close>
  and \<^verbatim>\<open>descriptive\<close>. All Hangul in the patterns is in decomposed form: initial
  consonants U+1100..U+1112, vowels U+1161..U+1175, final consonants U+11A8..U+11C2; the tags
  are the ASCII characters U+002F (slash) followed by U+004A (J) or U+0050 (P).
\<close>




text \<open>
  \<^verbatim>\<open>josa_ui\<close>: \<^verbatim>\<open>re.sub\<close> of U+110B U+1174 "/J" by U+110B U+1166 when descriptive,
  otherwise \<^verbatim>\<open>inp.replace("/J", "")\<close>.
\<close>

definition josa_ui :: "ustring \<Rightarrow> bool \<Rightarrow> ustring" where
  "josa_ui inp descriptive =
     (if descriptive
      then re_sub (literal_pat [0x110B, 0x1174, 0x2F, 0x4A] [0x110B, 0x1166]) inp
      else str_replace [0x2F, 0x4A] [] inp)"



text \<open>
  \<^verbatim>\<open>jamo\<close>: four substitutions in sequence. Each pattern is a one-character class (written
  with a decomposed syllable between the brackets, hence two characters), a class of final
  consonants and U+110B; the replacement is \<^verbatim>\<open>\1\<close> and an initial consonant.
\<close>

definition jamo_pat :: "cp list \<Rightarrow> cp list \<Rightarrow> cp \<Rightarrow> matcher" where
  "jamo_pat first codas onset xs =
     (case xs of
        a # b # c # _ \<Rightarrow>
          (if a \<in> set first \<and> b \<in> set codas \<and> c = 0x110B then Some ([a, onset], 3) else None)
      | _ \<Rightarrow> None)"

definition jamo :: "ustring \<Rightarrow> bool \<Rightarrow> ustring" where
  "jamo inp descriptive =
     (let out = inp;
          out = re_sub (jamo_pat [0x1100, 0x1173] [0x11AE] 0x1109) out;
          out = re_sub (jamo_pat [0x110B, 0x1173] [0x11BD, 0x11BE, 0x11C0, 0x11C2] 0x1109) out;
          out = re_sub (jamo_pat [0x110B, 0x1173] [0x11BF] 0x1100) out;
          out = re_sub (jamo_pat [0x110B, 0x1173] [0x11C1] 0x1107) out
      in out)"

text \<open>
  \<^verbatim>\<open>rieulbieub\<close>: four substitutions in sequence, one for each initial consonant; pattern
  \<^verbatim>\<open>([\<close>U+11B2 U+11B4\<^verbatim>\<open>])/P\<close> and the consonant, replacement \<^verbatim>\<open>\1\<close> and its tense form.
\<close>

definition rieulbieub_pat :: "cp \<Rightarrow> cp \<Rightarrow> matcher" where
  "rieulbieub_pat onset tense xs =
     (case xs of
        c # s # p # x # _ \<Rightarrow>
          (if c \<in> set [0x11B2, 0x11B4] \<and> s = 0x2F \<and> p = 0x50 \<and> x = onset
           then Some ([c, tense], 4) else None)
      | _ \<Rightarrow> None)"

definition rieulbieub :: "ustring \<Rightarrow> bool \<Rightarrow> ustring" where
  "rieulbieub inp descriptive =
     (let out = inp;
          out = re_sub (rieulbieub_pat 0x1100 0x1101) out;
          out = re_sub (rieulbieub_pat 0x1103 0x1104) out;
          out = re_sub (rieulbieub_pat 0x1109 0x110A) out;
          out = re_sub (rieulbieub_pat 0x110C 0x110D) out
      in out)"

text \<open>
  \<^verbatim>\<open>balb\<close>: two substitutions. The first pattern is U+1107 U+1161 (group 1), U+11B2, and
  group 2, which is \<^verbatim>\<open>$\<close> or one character other than U+110B and U+1112; \<^verbatim>\<open>$\<close> is tried
  first and matches at the end of the string and before a newline that ends the string. The
  second is U+1102 U+1165 (group 1), U+11B2, and group 2: one of U+110C, U+110D followed by
  U+116E, or one of U+1103, U+1104 followed by U+116E. Both replacements are
  \<^verbatim>\<open>\1\<close> U+11B8 \<^verbatim>\<open>\2\<close>.
\<close>

definition balb_pat1 :: matcher where
  "balb_pat1 xs =
     (case xs of
        a # b # c # rest \<Rightarrow>
          (if a = 0x1107 \<and> b = 0x1161 \<and> c = 0x11B2
           then (if rest = [] \<or> rest = [0x0A] then Some ([a, b, 0x11B8], 3)
                 else (case rest of
                         z # _ \<Rightarrow> (if z \<notin> set [0x110B, 0x1112] then Some ([a, b, 0x11B8, z], 4)
                                   else None)
                       | [] \<Rightarrow> None))
           else None)
      | _ \<Rightarrow> None)"

definition balb_pat2 :: matcher where
  "balb_pat2 xs =
     (case xs of
        a # b # c # x # u # _ \<Rightarrow>
          (if a = 0x1102 \<and> b = 0x1165 \<and> c = 0x11B2
              \<and> (x \<in> set [0x110C, 0x110D] \<and> u = 0x116E \<or> x \<in> set [0x1103, 0x1104] \<and> u = 0x116E)
           then Some ([a, b, 0x11B8, x, u], 5) else None)
      | _ \<Rightarrow> None)"

definition balb :: "ustring \<Rightarrow> bool \<Rightarrow> ustring" where
  "balb inp descriptive =
     (let out = inp;
          out = re_sub balb_pat1 out;
          out = re_sub balb_pat2 out
      in out)"

text \<open>
  For the proofs about \<open>balb\<close>: the first pattern with \<^verbatim>\<open>$\<close> matching at the end of the
  string only. A newline that ends the string is then matched by the second alternative of
  group 2, which yields the same output.
\<close>

definition balb_pat1_eos :: matcher where
  "balb_pat1_eos xs =
     (case xs of
        a # b # c # rest \<Rightarrow>
          (if a = 0x1107 \<and> b = 0x1161 \<and> c = 0x11B2
           then (case rest of
                   [] \<Rightarrow> Some ([a, b, 0x11B8], 3)
                 | z # _ \<Rightarrow> (if z \<notin> set [0x110B, 0x1112] then Some ([a, b, 0x11B8, z], 4)
                             else None))
           else None)
      | _ \<Rightarrow> None)"

section \<open>Properties of the Syllable view\<close>

lemma Syllable_init_code:
  "Syllable_init None (Some k) =
     (if Syllable_MIN \<le> k \<and> k \<le> Syllable_MAX then Inr \<lparr>code = k\<rparr> else Inl TypeError)"
  by (simp add: Syllable_init_def)

lemma Syllable_init_char:
  "Syllable_init (Some [c]) None =
     (if Syllable_MIN \<le> int c \<and> int c \<le> Syllable_MAX then Inr \<lparr>code = int c\<rparr>
      else Inl TypeError)"
  by (simp add: Syllable_init_def)

lemma syllable_ranges:
  assumes "Syllable_MIN \<le> code s" "code s \<le> Syllable_MAX"
  shows "0 \<le> initial s \<and> initial s < 19 \<and> 0 \<le> vowel s \<and> vowel s < 21
         \<and> 0 \<le> final s \<and> final s < 28"
proof -
  have i: "0 \<le> index s" "index s < 11172"
    using assms by (simp_all add: index_def Syllable_MIN_def Syllable_MAX_def)
  have "index s div 588 \<le> 11171 div 588"
    using i by (intro zdiv_mono1) simp_all
  then have "0 \<le> index s div 588" "index s div 588 < 19"
    using i by (simp_all add: pos_imp_zdiv_nonneg_iff)
  then show ?thesis
    by (simp add: initial_def vowel_def final_def)
qed

lemma syllable_recompose:
  "Syllable_MIN + (initial s * 21 + vowel s) * 28 + final s = code s"
proof -
  have "588 = (21 * 28 :: int)" by simp
  then have "initial s = (index s div 28) div 21"
    by (simp add: initial_def div_mult2_eq mult.commute)
  then have "initial s * 21 + vowel s = index s div 28"
    by (simp add: vowel_def)
  then have "(initial s * 21 + vowel s) * 28 + final s = index s"
    by (simp add: final_def)
  then show ?thesis
    by (simp add: index_def)
qed

text \<open>
  C3. Constructing a Syllable raises (a TypeError) for every code point outside the Hangul
  syllable block U+AC00..U+D7A3, whether it is given as the integer \<^verbatim>\<open>code\<close> or as the
  character \<^verbatim>\<open>char\<close>. For every code point inside the block the construction succeeds and
  the view yields initial = (cp - 0xAC00) div 588, vowel = ((cp - 0xAC00) div 28) mod 21 and
  final = (cp - 0xAC00) mod 28, with initial in [0,19), vowel in [0,21), final in [0,28), and
  0xAC00 + (initial * 21 + vowel) * 28 + final gives cp back.
\<close>

theorem Syllable_decomposition:
  fixes cp :: int
  shows "(cp < 0xAC00 \<or> 0xD7A3 < cp \<longrightarrow>
            Syllable_init None (Some cp) = Inl TypeError
            \<and> (0 \<le> cp \<longrightarrow> Syllable_init (Some [nat cp]) None = Inl TypeError))
       \<and> (0xAC00 \<le> cp \<and> cp \<le> 0xD7A3 \<longrightarrow>
            (\<exists>s. Syllable_init None (Some cp) = Inr s
                \<and> Syllable_init (Some [nat cp]) None = Inr s
                \<and> initial s = (cp - 0xAC00) div 588
                \<and> vowel s = ((cp - 0xAC00) div 28) mod 21
                \<and> final s = (cp - 0xAC00) mod 28
                \<and> 0 \<le> initial s \<and> initial s < 19
                \<and> 0 \<le> vowel s \<and> vowel s < 21
                \<and> 0 \<le> final s \<and> final s < 28
                \<and> 0xAC00 + (initial s * 21 + vowel s) * 28 + final s = cp))"
proof (intro conjI impI)
  assume "cp < 0xAC00 \<or> 0xD7A3 < cp"
  then show "Syllable_init None (Some cp) = Inl TypeError"
    by (auto simp: Syllable_init_code Syllable_MIN_def Syllable_MAX_def)
next
  assume "cp < 0xAC00 \<or> 0xD7A3 < cp" "0 \<le> cp"
  then show "Syllable_init (Some [nat cp]) None = Inl TypeError"
    by (auto simp: Syllable_init_char Syllable_MIN_def Syllable_MAX_def)
next
  assume r: "0xAC00 \<le> cp \<and> cp \<le> 0xD7A3"
  let ?s = "\<lparr>code = cp\<rparr>"
  have b: "Syllable_MIN \<le> code ?s" "code ?s \<le> Syllable_MAX"
    using r by (simp_all add: Syllable_MIN_def Syllable_MAX_def)
  have c1: "Syllable_init None (Some cp) = Inr ?s"
    using b by (simp add: Syllable_init_code)
  have c2: "Syllable_init (Some [nat cp]) None = Inr ?s"
    using b r by (simp add: Syllable_init_char)
  have d: "initial ?s = (cp - 0xAC00) div 588" "vowel ?s = ((cp - 0xAC00) div 28) mod 21"
    "final ?s = (cp - 0xAC00) mod 28"
    by (simp_all add: initial_def vowel_def final_def index_def Syllable_MIN_def)
  have e: "0xAC00 + (initial ?s * 21 + vowel ?s) * 28 + final ?s = cp"
    using syllable_recompose [of ?s] by (simp add: Syllable_MIN_def)
  show "\<exists>s. Syllable_init None (Some cp) = Inr s
          \<and> Syllable_init (Some [nat cp]) None = Inr s
          \<and> initial s = (cp - 0xAC00) div 588
          \<and> vowel s = ((cp - 0xAC00) div 28) mod 21
          \<and> final s = (cp - 0xAC00) mod 28
          \<and> 0 \<le> initial s \<and> initial s < 19
          \<and> 0 \<le> vowel s \<and> vowel s < 21
          \<and> 0 \<le> final s \<and> final s < 28
          \<and> 0xAC00 + (initial s * 21 + vowel s) * 28 + final s = cp"
    using c1 c2 d e syllable_ranges [OF b] by (intro exI [of _ ?s]) simp
qed

theorem Syllable_decomposition_witness:
  "Syllable_init None (Some 0x41) = Inl TypeError
   \<and> Syllable_init (Some [0x41]) None = Inl TypeError
   \<and> (\<exists>s. Syllable_init None (Some 0xD7A3) = Inr s \<and> Syllable_init (Some [0xD7A3]) None = Inr s
          \<and> initial s = 18 \<and> vowel s = 20 \<and> final s = 27)"
  using Syllable_decomposition [of "0x41"] Syllable_decomposition [of "0xD7A3"]
  by auto

section \<open>Properties of the ambiguity set\<close>

lemma split_scan_count:
  "split_scan c is check \<longleftrightarrow>
     (if check then 1 else 2) \<le> length (filter (valid_split c) is)"
  by (induction "is" arbitrary: check) (auto simp: valid_split_def Let_def)

lemma fold_insert_if:
  "fold (\<lambda>x r. if P x then insert (f x) r else r) xs A = A \<union> f ` {x \<in> set xs. P x}"
  by (induction xs arbitrary: A) auto

lemma patterns_iff:
  "s \<in> ACADEMIC_AMBIGUOUS_PATTERNS \<longleftrightarrow>
     (\<exists>f \<in> set REVISED_FINALS. \<exists>i \<in> set REVISED_INITIALS. s = f @ i)
     \<and> split_scan s [0..<length s] False"
proof -
  have "academic_ambiguous_patterns =
      fold (\<lambda>x r. if (\<lambda>(f, i). split_scan (f @ i) [0..<length (f @ i)] False) x
                   then insert ((\<lambda>(f, i). f @ i) x) r else r)
           (List.product REVISED_FINALS REVISED_INITIALS) {}"
    unfolding academic_ambiguous_patterns_def
    by (rule arg_cong [where f = "\<lambda>g. fold g _ _"]) (auto simp: fun_eq_iff Let_def)
  then have "academic_ambiguous_patterns =
      (\<lambda>(f, i). f @ i) ` {x \<in> set (List.product REVISED_FINALS REVISED_INITIALS).
         (\<lambda>(f, i). split_scan (f @ i) [0..<length (f @ i)] False) x}"
    by (simp only: fold_insert_if Un_empty_left)
  then have "s \<in> academic_ambiguous_patterns \<longleftrightarrow>
      s \<in> (\<lambda>(f, i). f @ i) ` {x \<in> set (List.product REVISED_FINALS REVISED_INITIALS).
         (\<lambda>(f, i). split_scan (f @ i) [0..<length (f @ i)] False) x}"
    by (rule arg_cong)
  also have "\<dots> \<longleftrightarrow> (\<exists>f \<in> set REVISED_FINALS. \<exists>i \<in> set REVISED_INITIALS. s = f @ i)
     \<and> split_scan s [0..<length s] False"
    by auto
  finally show ?thesis
    by (simp only: ACADEMIC_AMBIGUOUS_PATTERNS_def)
qed

lemma count_card:
  "length (filter P [0..<n]) = card {k. k < n \<and> P k}"
proof -
  have "length (filter P [0..<n]) = card ({k. P k} \<inter> set [0..<n])"
    by (rule distinct_length_filter) simp
  also have "{k. P k} \<inter> set [0..<n] = {k. k < n \<and> P k}" by auto
  finally show ?thesis .
qed

text \<open>
  C1 (amended). For every final romanization \<open>f\<close> and initial romanization \<open>i\<close> of the
  tables, the concatenation \<open>f @ i\<close> is in ACADEMIC_AMBIGUOUS_PATTERNS if and only if more
  than one split point \<open>k\<close> with \<open>k < length (f @ i)\<close>, that is a split whose tail is not
  empty, yields a head in REVISED_FINALS and a tail in REVISED_INITIALS. The split at the
  very end (whole string as final, empty initial) is not among the split points of the loop.
\<close>

theorem ambiguous_patterns_iff_two_proper_splits:
  assumes "f \<in> set REVISED_FINALS" "i \<in> set REVISED_INITIALS"
  shows "f @ i \<in> ACADEMIC_AMBIGUOUS_PATTERNS \<longleftrightarrow>
     1 < card {k. k < length (f @ i) \<and> take k (f @ i) \<in> set REVISED_FINALS
                  \<and> drop k (f @ i) \<in> set REVISED_INITIALS}"
proof -
  have "f @ i \<in> ACADEMIC_AMBIGUOUS_PATTERNS \<longleftrightarrow> split_scan (f @ i) [0..<length (f @ i)] False"
    using assms by (auto simp: patterns_iff)
  also have "\<dots> \<longleftrightarrow> 2 \<le> card {k. k < length (f @ i) \<and> valid_split (f @ i) k}"
    by (simp add: split_scan_count count_card)
  finally show ?thesis
    by (simp add: valid_split_def) linarith
qed


lemma scan_g: "\<not> split_scan ''g'' [0..<length ''g''] False"
  by (simp add: REVISED_FINALS_def REVISED_INITIALS_def)

lemma scan_kk: "split_scan ''kk'' [0..<length ''kk''] False"
  by (simp add: REVISED_FINALS_def REVISED_INITIALS_def upt_rec)

lemma tables_mem:
  "''g'' \<in> set REVISED_FINALS" "'''' \<in> set REVISED_INITIALS"
  "'''' \<in> set REVISED_FINALS" "''g'' \<in> set REVISED_INITIALS"
  "''kk'' \<in> set REVISED_FINALS"
  by (simp_all add: REVISED_FINALS_def REVISED_INITIALS_def)

text \<open>
  C1 as stated fails: \<open>''g''\<close> is the concatenation of the final \<open>''g''\<close> and the empty
  initial, the split points 0 and 1 both give a head in REVISED_FINALS and a tail in
  REVISED_INITIALS, and yet the set does not contain it.
\<close>

theorem ambiguous_patterns_whole_split_counterexample:
  "''g'' \<in> set REVISED_FINALS \<and> '''' \<in> set REVISED_INITIALS
   \<and> ''g'' @ '''' \<notin> ACADEMIC_AMBIGUOUS_PATTERNS
   \<and> take 0 (''g'' @ '''') \<in> set REVISED_FINALS \<and> drop 0 (''g'' @ '''') \<in> set REVISED_INITIALS
   \<and> take 1 (''g'' @ '''') \<in> set REVISED_FINALS \<and> drop 1 (''g'' @ '''') \<in> set REVISED_INITIALS"
proof -
  have n: "''g'' @ '''' \<notin> ACADEMIC_AMBIGUOUS_PATTERNS"
    using scan_g by (simp add: patterns_iff)
  have t: "take 0 (''g'' @ '''') = ''''" "drop 0 (''g'' @ '''') = ''g''"
    "take 1 (''g'' @ '''') = ''g''" "drop 1 (''g'' @ '''') = ''''"
    by simp_all
  show ?thesis
    unfolding t using tables_mem n by blast
qed

theorem ambiguous_patterns_iff_two_proper_splits_witness:
  "''kk'' \<in> set REVISED_FINALS \<and> '''' \<in> set REVISED_INITIALS
   \<and> 1 < card {k. k < length (''kk'' @ '''') \<and> take k (''kk'' @ '''') \<in> set REVISED_FINALS
                  \<and> drop k (''kk'' @ '''') \<in> set REVISED_INITIALS}"
proof -
  have "''kk'' = ''kk'' @ ''''"
    by simp
  then have "\<exists>f \<in> set REVISED_FINALS. \<exists>i \<in> set REVISED_INITIALS. ''kk'' = f @ i"
    using tables_mem by blast
  then have "''kk'' \<in> ACADEMIC_AMBIGUOUS_PATTERNS"
    using scan_kk by (simp only: patterns_iff simp_thms)
  then have n: "''kk'' @ '''' \<in> ACADEMIC_AMBIGUOUS_PATTERNS"
    by simp
  show ?thesis
    using n tables_mem(5,2) ambiguous_patterns_iff_two_proper_splits [OF tables_mem(5,2)] by blast
qed

section \<open>Properties of the academic rule and of the transliterator\<close>

lemma tuple_get_in_range:
  "0 \<le> i \<Longrightarrow> i < int (length xs) \<Longrightarrow> tuple_get xs i = Inr (xs ! nat i)"
  by (simp add: tuple_get_def)

lemma table_lengths:
  "length REVISED_INITIALS = 19" "length REVISED_VOWELS = 21" "length REVISED_FINALS = 28"
  by (simp_all add: REVISED_INITIALS_def REVISED_VOWELS_def REVISED_FINALS_def)

lemma valid_syllable_ranges:
  "valid_syllable s \<Longrightarrow> 0 \<le> initial s \<and> initial s < 19 \<and> 0 \<le> vowel s \<and> vowel s < 21
         \<and> 0 \<le> final s \<and> final s < 28"
  unfolding valid_syllable_def by (rule syllable_ranges) simp_all

lemma tuple_get_tables:
  assumes "valid_syllable s"
  shows "tuple_get REVISED_INITIALS (initial s) = Inr (REVISED_INITIALS ! nat (initial s))"
    and "tuple_get REVISED_VOWELS (vowel s) = Inr (REVISED_VOWELS ! nat (vowel s))"
    and "tuple_get REVISED_FINALS (final s) = Inr (REVISED_FINALS ! nat (final s))"
  using valid_syllable_ranges [OF assms]
  by (simp_all add: tuple_get_in_range table_lengths)

lemma academic_syllable:
  assumes "valid_syllable s" and "\<And>p. snd pre = Some p \<Longrightarrow> valid_syllable p"
  shows "academic (c, Some s) pre post =
           Inr (Some (ustr ((if marker_needed (snd pre) s then ''-'' else '''') @ romanization s)))"
proof (cases "snd pre")
  case None
  then show ?thesis
    using tuple_get_tables [OF assms(1)]
    by (simp add: academic_def and_then_def marker_needed_def romanization_def)
next
  case (Some p)
  then have vp: "valid_syllable p" by (rule assms(2))
  show ?thesis
  proof (cases "initial s = 11")
    case True
    then show ?thesis
      using Some tuple_get_tables [OF assms(1)]
      by (simp add: academic_def and_then_def marker_needed_def romanization_def)
  next
    case False
    then show ?thesis
      using Some tuple_get_tables [OF assms(1)] tuple_get_tables(3) [OF vp]
      by (simp add: academic_def and_then_def marker_needed_def romanization_def)
  qed
qed

lemma academic_other: "academic (Some c, None) pre post = Inr (Some [c])"
  by (simp add: academic_def)

lemma make_post_eq:
  "make_post c = Inr (Some c, if Syllable_MIN \<le> int c \<and> int c \<le> Syllable_MAX
                              then Some \<lparr>code = int c\<rparr> else None)"
  by (simp add: make_post_def Syllable_init_char)

lemma valid_element_of [simp]: "valid_element (element_of c)"
  by (simp add: valid_element_def element_of_def valid_syllable_def)

lemma valid_element_None [simp]: "valid_element (x, None)"
  by (simp add: valid_element_def)

lemma academic_element_of:
  assumes "valid_element pre"
  shows "academic (element_of c) pre post = Inr (Some (academic_out pre c))"
proof (cases "snd (element_of c)")
  case None
  then have "element_of c = (Some c, None)"
    by (simp add: element_of_def split: if_splits)
  then show ?thesis
    using None by (simp add: academic_other academic_out_def)
next
  case (Some s)
  then have e: "element_of c = (Some c, Some s)" and v: "valid_syllable s"
    by (auto simp: element_of_def valid_syllable_def split: if_splits)
  show ?thesis
    unfolding e using assms v Some
    by (simp add: academic_syllable valid_element_def academic_out_def)
qed

lemma translit_loop_academic:
  assumes "valid_element pre"
  shows "and_then (translit_loop academic cs (result, pre, element_of c0)) finish
         = Inr (concat result @ concat (academic_outs pre (c0 # cs)))"
  using assms
proof (induction cs arbitrary: result pre c0)
  case Nil
  then show ?case
    by (simp add: and_then_def finish_def academic_element_of append_out_def)
next
  case (Cons c cs)
  have "translit_loop academic (c # cs) (result, pre, element_of c0)
        = translit_loop academic cs (result @ [academic_out pre c0], element_of c0, element_of c)"
    using Cons.prems
    by (simp add: make_post_eq element_of_def [symmetric] and_then_def academic_element_of
        append_out_def) (simp add: element_of_def)
  then show ?case
    using Cons.IH [of "element_of c0" "result @ [academic_out pre c0]" c] by simp
qed

lemma translit_academic:
  "translit academic text = Inr (concat (academic_outs (None, None) text))"
proof (cases "text")
  case Nil
  then show ?thesis
    by (simp add: translit_def academic_def and_then_def append_out_def)
next
  case (Cons c cs)
  have "translit_loop academic (c # cs) ([], (None, None), (None, None))
        = translit_loop academic cs ([], (None, None), element_of c)"
    by (simp add: make_post_eq element_of_def [symmetric] and_then_def)
  moreover have "translit academic text
        = and_then (translit_loop academic text ([], (None, None), (None, None))) finish"
    by (simp add: translit_def finish_def fun_eq_iff and_then_def split: sum.splits prod.splits)
  ultimately show ?thesis
    using Cons translit_loop_academic [of "(None, None)" cs "[]" c] by simp
qed
section \<open>The marker rule and the end-to-end examples\<close>

lemma not_ambiguous: "\<not> split_scan s [0..<length s] False \<Longrightarrow> s \<notin> ACADEMIC_AMBIGUOUS_PATTERNS"
  by (simp add: patterns_iff)

lemma example_scans: "\<not> split_scan ''nn'' [0..<length ''nn''] False"
  "\<not> split_scan ''ngh'' [0..<length ''ngh''] False"
  "\<not> split_scan ''s'' [0..<length ''s''] False"
  by (simp_all add: REVISED_FINALS_def REVISED_INITIALS_def upt_rec)

lemma example_parts:
  "initial \<lparr>code = 0xC548\<rparr> = 11" "vowel \<lparr>code = 0xC548\<rparr> = 0" "final \<lparr>code = 0xC548\<rparr> = 4"
  "initial \<lparr>code = 0xB155\<rparr> = 2" "vowel \<lparr>code = 0xB155\<rparr> = 6" "final \<lparr>code = 0xB155\<rparr> = 21"
  "initial \<lparr>code = 0xD558\<rparr> = 18" "vowel \<lparr>code = 0xD558\<rparr> = 0" "final \<lparr>code = 0xD558\<rparr> = 0"
  "initial \<lparr>code = 0xC138\<rparr> = 9" "vowel \<lparr>code = 0xC138\<rparr> = 5" "final \<lparr>code = 0xC138\<rparr> = 0"
  "initial \<lparr>code = 0xC694\<rparr> = 11" "vowel \<lparr>code = 0xC694\<rparr> = 12" "final \<lparr>code = 0xC694\<rparr> = 0"
  "initial \<lparr>code = 0xAC00\<rparr> = 0" "vowel \<lparr>code = 0xAC00\<rparr> = 0" "final \<lparr>code = 0xAC00\<rparr> = 0"
  "initial \<lparr>code = 0xD7A3\<rparr> = 18" "vowel \<lparr>code = 0xD7A3\<rparr> = 20" "final \<lparr>code = 0xD7A3\<rparr> = 27"
  "initial \<lparr>code = 0xC544\<rparr> = 11" "vowel \<lparr>code = 0xC544\<rparr> = 0" "final \<lparr>code = 0xC544\<rparr> = 0"
  by (simp_all add: initial_def vowel_def final_def index_def Syllable_MIN_def)

lemma example_elements:
  "element_of 0xC548 = (Some 0xC548, Some \<lparr>code = 0xC548\<rparr>)"
  "element_of 0xB155 = (Some 0xB155, Some \<lparr>code = 0xB155\<rparr>)"
  "element_of 0xD558 = (Some 0xD558, Some \<lparr>code = 0xD558\<rparr>)"
  "element_of 0xC138 = (Some 0xC138, Some \<lparr>code = 0xC138\<rparr>)"
  "element_of 0xC694 = (Some 0xC694, Some \<lparr>code = 0xC694\<rparr>)"
  "element_of 0xAC00 = (Some 0xAC00, Some \<lparr>code = 0xAC00\<rparr>)"
  "element_of 0xD7A3 = (Some 0xD7A3, Some \<lparr>code = 0xD7A3\<rparr>)"
  by (simp_all add: element_of_def Syllable_MIN_def Syllable_MAX_def)

lemma example_outs:
  "academic_out (None, None) 0xC548 = ustr ''an''"
  "academic_out (element_of 0xC548) 0xB155 = ustr ''nyeong''"
  "academic_out (element_of 0xB155) 0xD558 = ustr ''ha''"
  "academic_out (element_of 0xD558) 0xC138 = ustr ''se''"
  "academic_out (element_of 0xC138) 0xC694 = ustr ''-yo''"
  "academic_out (None, None) 0xAC00 = ustr ''ga''"
  "academic_out (None, None) 0xD7A3 = ustr ''hih''"
  using example_scans [THEN not_ambiguous]
  by (simp_all add: academic_out_def example_elements example_parts marker_needed_def romanization_def
      REVISED_INITIALS_def REVISED_VOWELS_def REVISED_FINALS_def)

text \<open>
  C9. Transliteration with the academic rule on the literal examples: the empty text gives
  the empty text, U+AC00 gives "ga", U+D7A3 gives "hih", and the five syllables
  U+C548 U+B155 U+D558 U+C138 U+C694 give "annyeonghase-yo", with the marker before the last
  syllable, whose initial is the null initial and which follows a syllable.
\<close>

theorem translit_examples:
  "translit academic [] = Inr []
   \<and> translit academic [0xAC00] = Inr (ustr ''ga'')
   \<and> translit academic [0xD7A3] = Inr (ustr ''hih'')
   \<and> translit academic [0xC548, 0xB155, 0xD558, 0xC138, 0xC694] = Inr (ustr ''annyeonghase-yo'')"
  by (simp add: translit_academic example_outs) (simp add: ustr_def)


lemma valid_examples:
  "valid_syllable \<lparr>code = 0xC694\<rparr>" "valid_syllable \<lparr>code = 0xC138\<rparr>"
  "valid_syllable \<lparr>code = 0xC544\<rparr>"
  by (simp_all add: valid_syllable_def Syllable_MIN_def Syllable_MAX_def)

text \<open>
  C2 (amended). For a current Hangul syllable the rule returns, when the preceding element
  is a Hangul syllable and either the current initial is the null initial (index 11, whose
  romanization is the empty string) or the concatenation of the previous final's and the
  current initial's romanizations is in ACADEMIC_AMBIGUOUS_PATTERNS, the marker "-" followed
  by initial + vowel + final romanization; in every other case, in particular when the
  preceding element is not a syllable, it returns initial + vowel + final romanization alone.
\<close>

theorem academic_marker_rule:
  assumes "valid_syllable s" and "\<forall>p. snd pre = Some p \<longrightarrow> valid_syllable p"
  shows "academic (c, Some s) pre post =
           Inr (Some (ustr ((if (\<exists>p. snd pre = Some p
                                  \<and> (initial s = 11
                                     \<or> REVISED_FINALS ! nat (final p) @ REVISED_INITIALS ! nat (initial s)
                                          \<in> ACADEMIC_AMBIGUOUS_PATTERNS))
                             then ''-'' else '''')
                            @ REVISED_INITIALS ! nat (initial s) @ REVISED_VOWELS ! nat (vowel s)
                            @ REVISED_FINALS ! nat (final s))))
         \<and> REVISED_INITIALS ! 11 = ''''"
proof -
  have "marker_needed (snd pre) s \<longleftrightarrow>
        (\<exists>p. snd pre = Some p
            \<and> (initial s = 11
               \<or> REVISED_FINALS ! nat (final p) @ REVISED_INITIALS ! nat (initial s)
                    \<in> ACADEMIC_AMBIGUOUS_PATTERNS))"
    by (simp add: marker_needed_def split: option.splits)
  moreover have "REVISED_INITIALS ! 11 = ''''"
    by (simp add: REVISED_INITIALS_def)
  ultimately show ?thesis
    using assms academic_syllable [of s pre c post]
    by (simp add: romanization_def)
qed

theorem academic_marker_rule_witness:
  "academic (Some 0xC694, Some \<lparr>code = 0xC694\<rparr>) (Some 0xC138, Some \<lparr>code = 0xC138\<rparr>) (None, None)
     = Inr (Some (ustr ''-yo''))"
  using academic_marker_rule [of "\<lparr>code = 0xC694\<rparr>" "(Some 0xC138, Some \<lparr>code = 0xC138\<rparr>)"
      "Some 0xC694" "(None, None)"] valid_examples
  by (simp add: example_parts REVISED_INITIALS_def REVISED_VOWELS_def REVISED_FINALS_def)

text \<open>
  C2 as stated fails: for the syllable U+C544, whose initial is the null initial, with no
  preceding element the rule returns "a", without a marker.
\<close>

theorem academic_null_initial_at_start_counterexample:
  "initial \<lparr>code = 0xC544\<rparr> = 11
   \<and> academic (Some 0xC544, Some \<lparr>code = 0xC544\<rparr>) (None, None) (None, None)
       = Inr (Some (ustr ''a''))"
  using academic_syllable [of "\<lparr>code = 0xC544\<rparr>" "(None, None)" "Some 0xC544" "(None, None)"]
    valid_examples
  by (simp add: example_parts marker_needed_def romanization_def
      REVISED_INITIALS_def REVISED_VOWELS_def REVISED_FINALS_def)

lemma academic_outs_append:
  "academic_outs pre (xs @ ys)
   = academic_outs pre xs @ academic_outs (if xs = [] then pre else element_of (last xs)) ys"
  by (induction xs arbitrary: pre) simp_all

lemma Syllable_init_char_Inr:
  "Syllable_init (Some [c]) None = Inr s \<Longrightarrow> element_of c = (Some c, Some s)"
  by (auto simp: Syllable_init_char element_of_def split: if_splits)

lemma Syllable_init_char_Inl:
  "Syllable_init (Some [c]) None = Inl e \<Longrightarrow> element_of c = (Some c, None)"
  by (auto simp: Syllable_init_char element_of_def split: if_splits)

text \<open>
  C10. In every text, a Hangul syllable \<open>c\<close> at the start of the text or directly after a
  character that is not a Hangul syllable is romanized as initial + vowel + final
  romanization, without a marker, whatever its initial and whatever the ambiguity set holds:
  the output is the transliteration of the text before \<open>c\<close>, then that plain romanization,
  then the output for the rest.
\<close>

theorem no_marker_without_previous_syllable:
  assumes "Syllable_init (Some [c]) None = Inr s"
    and "xs = [] \<or> Syllable_init (Some [last xs]) None = Inl TypeError"
  shows "\<exists>A B. translit academic xs = Inr A
           \<and> translit academic (xs @ c # ys)
               = Inr (A @ ustr (REVISED_INITIALS ! nat (initial s) @ REVISED_VOWELS ! nat (vowel s)
                                @ REVISED_FINALS ! nat (final s)) @ B)"
proof -
  let ?pre = "if xs = [] then (None, None) else element_of (last xs)"
  have "snd ?pre = None"
    using assms(2) by (auto dest: Syllable_init_char_Inl)
  then have "academic_out ?pre c = ustr (romanization s)"
    using Syllable_init_char_Inr [OF assms(1)]
    by (simp add: academic_out_def marker_needed_def)
  then have "academic_outs (None, None) (xs @ c # ys)
      = academic_outs (None, None) xs @ ustr (romanization s) # academic_outs (element_of c) ys"
    by (simp add: academic_outs_append)
  then have "translit academic (xs @ c # ys)
      = Inr (concat (academic_outs (None, None) xs) @ ustr (romanization s)
             @ concat (academic_outs (element_of c) ys))"
    by (simp add: translit_academic)
  then show ?thesis
    by (simp add: translit_academic romanization_def)
qed

theorem no_marker_without_previous_syllable_witness:
  "\<exists>A B. translit academic [0x20] = Inr A
         \<and> translit academic ([0x20] @ 0xC544 # [0xC694]) = Inr (A @ ustr ''a'' @ B)"
proof -
  have a: "Syllable_init (Some [0xC544]) None = Inr \<lparr>code = 0xC544\<rparr>"
    by (simp add: Syllable_init_char Syllable_MIN_def Syllable_MAX_def)
  have b: "[0x20] = [] \<or> Syllable_init (Some [last [0x20]]) None = Inl TypeError"
    by (simp add: Syllable_init_char Syllable_MIN_def Syllable_MAX_def)
  show ?thesis
    using no_marker_without_previous_syllable [OF a b, of "[0xC694]"]
    by (simp add: example_parts REVISED_INITIALS_def REVISED_VOWELS_def REVISED_FINALS_def)
qed
section \<open>General properties of the substitution\<close>

text \<open>
  A string without a match is returned unchanged; the first character survives when every
  replacement starts with it; and the substitution distributes over a concatenation when no
  match straddles the cut (or a match only looks one character across it and re-emits it).
\<close>

lemma re_sub_no_match:
  "(\<And>s. suffix s xs \<Longrightarrow> m s = None) \<Longrightarrow> re_sub m xs = xs"
proof (induction xs)
  case Nil
  then show ?case by simp
next
  case (Cons x xs)
  have "m (x # xs) = None"
    by (rule Cons.prems) simp
  moreover have "re_sub m xs = xs"
    by (rule Cons.IH) (simp add: Cons.prems suffix_ConsI)
  ultimately show ?case by simp
qed

lemma re_sub_head:
  assumes "\<And>r k. m (x # xs) = Some (r, k) \<Longrightarrow> \<exists>r'. r = x # r'"
  shows "\<exists>w. re_sub m (x # xs) = x # w"
proof (cases "m (x # xs)")
  case None
  then show ?thesis by simp
next
  case (Some a)
  obtain r k where a: "a = (r, k)" by (cases a)
  with Some assms obtain r' where "r = x # r'" by blast
  with Some a show ?thesis by simp
qed

lemma re_sub_append_gen:
  assumes bound: "\<And>s r k. m s = Some (r, k) \<Longrightarrow> 1 \<le> k \<and> k \<le> length s"
    and loc: "\<And>s. s \<noteq> [] \<Longrightarrow> suffix s xs \<Longrightarrow>
           m (s @ ys) = m s
           \<or> (\<exists>r y ys'. ys = y # ys' \<and> m s = Some (r, length s)
                 \<and> m (s @ ys) = Some (r @ [y], Suc (length s)) \<and> m ys = None)"
  shows "re_sub m (xs @ ys) = re_sub m xs @ re_sub m ys"
  using loc
proof (induction xs rule: length_induct)
  case (1 xs)
  show ?case
  proof (cases xs)
    case Nil
    then show ?thesis by simp
  next
    case (Cons x xs')
    have ih: "re_sub m (zs @ ys) = re_sub m zs @ re_sub m ys" if "suffix zs xs'" for zs
    proof -
      have "length zs < length xs"
        using that Cons by (auto dest: suffix_length_le)
      moreover have "suffix s xs" if "suffix s zs" for s
        using that \<open>suffix zs xs'\<close> Cons by (meson suffix_ConsI suffix_order.trans)
      ultimately show ?thesis
        using "1.IH" "1.prems" by blast
    qed
    from "1.prems" [of xs] Cons
    consider (same) "m (xs @ ys) = m xs"
      | (look) r y ys' where "ys = y # ys'" "m xs = Some (r, length xs)"
          "m (xs @ ys) = Some (r @ [y], Suc (length xs))" "m ys = None"
      by auto
    then show ?thesis
    proof cases
      case same
      show ?thesis
      proof (cases "m xs")
        case None
        then show ?thesis
          using same Cons ih [of xs'] by simp
      next
        case (Some a)
        obtain r k where a: "a = (r, k)" by (cases a)
        have k: "1 \<le> k" "k \<le> length xs"
          using bound [of xs r k] Some a by simp_all
        then have "drop (k - 1) (xs' @ ys) = drop (k - 1) xs' @ ys"
          using Cons by simp
        then show ?thesis
          using same Some a Cons ih [of "drop (k - 1) xs'"] by (simp add: suffix_drop)
      qed
    next
      case look
      have "re_sub m ys = y # re_sub m ys'"
        using look(1,4) by simp
      then show ?thesis
        using look Cons by simp
    qed
  qed
qed

lemma re_sub_append:
  assumes "\<And>s r k. m s = Some (r, k) \<Longrightarrow> 1 \<le> k \<and> k \<le> length s"
    and "\<And>s. s \<noteq> [] \<Longrightarrow> m (s @ ys) = m s"
  shows "re_sub m (xs @ ys) = re_sub m xs @ re_sub m ys"
  by (rule re_sub_append_gen) (use assms in blast)+

lemma list_cases4 [case_names 0 1 2 3 4]:
  obtains "s = []" | a where "s = [a]" | a b where "s = [a, b]" | a b c where "s = [a, b, c]"
    | a b c d r where "s = a # b # c # d # r"
proof (cases s)
  case Nil then show ?thesis using that by blast
next
  case (Cons a s1)
  note c1 = Cons
  show ?thesis
  proof (cases s1)
    case Nil then show ?thesis using c1 that by blast
  next
    case (Cons b s2)
    note c2 = Cons
    show ?thesis
    proof (cases s2)
      case Nil then show ?thesis using c1 c2 that by blast
    next
      case (Cons c s3)
      then show ?thesis
        using c1 c2 that by (cases s3) blast+
    qed
  qed
qed

section \<open>Tensification after the finals U+11B2 and U+11B4 (rieulbieub)\<close>

lemma rieulbieub_pat_bound:
  "rieulbieub_pat onset tense s = Some (r, k) \<Longrightarrow> 1 \<le> k \<and> k \<le> length s"
  by (auto simp: rieulbieub_pat_def split: list.splits if_splits)

lemma rieulbieub_pat_local:
  assumes "c \<noteq> 0x2F" "c \<noteq> 0x50" "c \<noteq> onset" "s \<noteq> []"
  shows "rieulbieub_pat onset tense (s @ c # zs) = rieulbieub_pat onset tense s"
  using assms by (cases s rule: list_cases4) (simp_all add: rieulbieub_pat_def split: list.splits)

lemma rieulbieub_sync:
  assumes "c \<noteq> 0x2F" "c \<noteq> 0x50" "c \<noteq> onset"
  shows "re_sub (rieulbieub_pat onset tense) (xs @ c # zs)
         = re_sub (rieulbieub_pat onset tense) xs @ re_sub (rieulbieub_pat onset tense) (c # zs)"
  by (rule re_sub_append) (use assms rieulbieub_pat_bound rieulbieub_pat_local in blast)+

lemma rieulbieub_skip:
  "a \<notin> set [0x11B2, 0x11B4] \<Longrightarrow>
     re_sub (rieulbieub_pat onset tense) (a # zs) = a # re_sub (rieulbieub_pat onset tense) zs"
  by (simp add: rieulbieub_pat_def split: list.splits)

lemma rieulbieub_skip2:
  "b \<noteq> 0x2F \<Longrightarrow>
     re_sub (rieulbieub_pat onset tense) (a # b # zs)
     = a # re_sub (rieulbieub_pat onset tense) (b # zs)"
  by (simp add: rieulbieub_pat_def split: list.splits)

lemma rieulbieub_skip4:
  "x \<noteq> onset \<Longrightarrow>
     re_sub (rieulbieub_pat onset tense) (a # b # c # x # zs)
     = a # re_sub (rieulbieub_pat onset tense) (b # c # x # zs)"
  by (simp add: rieulbieub_pat_def split: list.splits)

lemma rieulbieub_match:
  assumes "c \<in> set [0x11B2, 0x11B4]" "c \<noteq> onset"
  shows "re_sub (rieulbieub_pat onset tense) (xs @ c # 0x2F # 0x50 # onset # ys)
         = re_sub (rieulbieub_pat onset tense) xs @ c # tense
           # re_sub (rieulbieub_pat onset tense) ys"
proof -
  have n: "c \<noteq> 0x2F" "c \<noteq> 0x50"
    using assms by auto
  have "re_sub (rieulbieub_pat onset tense) (c # 0x2F # 0x50 # onset # ys)
        = [c, tense] @ re_sub (rieulbieub_pat onset tense) ys"
    using assms by (simp add: rieulbieub_pat_def)
  then show ?thesis
    using rieulbieub_sync [OF n assms(2), of tense xs "0x2F # 0x50 # onset # ys"] by simp
qed

lemma rieulbieub_pass_occurrence:
  assumes "c \<in> set [0x11B2, 0x11B4]" "c \<noteq> onset" "x \<noteq> onset" "x \<notin> set [0x11B2, 0x11B4]"
  shows "re_sub (rieulbieub_pat onset tense) (xs @ c # 0x2F # 0x50 # x # ys)
         = re_sub (rieulbieub_pat onset tense) xs @ c # 0x2F # 0x50 # x
           # re_sub (rieulbieub_pat onset tense) ys"
proof -
  have n: "c \<noteq> 0x2F" "c \<noteq> 0x50"
    using assms by auto
  have "re_sub (rieulbieub_pat onset tense) (c # 0x2F # 0x50 # x # ys)
        = [c, 0x2F, 0x50, x] @ re_sub (rieulbieub_pat onset tense) ys"
    using assms(3,4) by (simp add: rieulbieub_skip4 rieulbieub_skip del: re_sub.simps)
  then show ?thesis
    using rieulbieub_sync [OF n assms(2), of tense xs "0x2F # 0x50 # x # ys"] by simp
qed

lemma rieulbieub_pass_result:
  assumes "c \<in> set [0x11B2, 0x11B4]" "c \<noteq> onset" "t \<noteq> 0x2F" "t \<notin> set [0x11B2, 0x11B4]"
  shows "re_sub (rieulbieub_pat onset tense) (xs @ c # t # ys)
         = re_sub (rieulbieub_pat onset tense) xs @ c # t
           # re_sub (rieulbieub_pat onset tense) ys"
proof -
  have n: "c \<noteq> 0x2F" "c \<noteq> 0x50"
    using assms by auto
  have "re_sub (rieulbieub_pat onset tense) (c # t # ys)
        = [c, t] @ re_sub (rieulbieub_pat onset tense) ys"
    using assms(3,4) by (simp add: rieulbieub_skip2 rieulbieub_skip del: re_sub.simps)
  then show ?thesis
    using rieulbieub_sync [OF n assms(2), of tense xs "t # ys"] by simp
qed


lemma rieulbieub_pat_Some:
  "rieulbieub_pat onset tense s = Some (r, k) \<Longrightarrow>
     \<exists>c rest. c \<in> set [0x11B2, 0x11B4] \<and> s = [c, 0x2F, 0x50, onset] @ rest"
  by (auto simp: rieulbieub_pat_def split: list.splits if_splits)

lemma rieulbieub_pat_absent:
  assumes "\<forall>c \<in> set [0x11B2, 0x11B4]. \<not> sublist [c, 0x2F, 0x50, onset] inp"
  shows "re_sub (rieulbieub_pat onset tense) inp = inp"
proof (rule re_sub_no_match)
  fix s assume s: "suffix s inp"
  show "rieulbieub_pat onset tense s = None"
  proof (rule ccontr)
    assume "rieulbieub_pat onset tense s \<noteq> None"
    then obtain r k where "rieulbieub_pat onset tense s = Some (r, k)"
      by auto
    then obtain c rest where c: "c \<in> set [0x11B2, 0x11B4]" "s = [c, 0x2F, 0x50, onset] @ rest"
      using rieulbieub_pat_Some by blast
    from s obtain pre where "inp = pre @ s"
      by (auto simp: suffix_def)
    then have "sublist [c, 0x2F, 0x50, onset] inp"
      unfolding c(2) by (rule ssubst) (rule sublist_appendI)
    with assms c(1) show False by blast
  qed
qed

text \<open>
  C5. For every input, rieulbieub (regulation 25) replaces an occurrence of a final U+11B2 or
  U+11B4, the tag "/P" and one of the four initials U+1100, U+1103, U+1109, U+110C by the
  same final followed by the tense initial U+1101, U+1104, U+110A, U+110D respectively (the
  tag is gone), and treats the text before and after the occurrence on its own; an input
  without any such occurrence is returned unchanged. Together the two statements fix the
  output for every input: each occurrence is rewritten and every other part is kept.
\<close>

theorem rieulbieub_tensification:
  "(c \<in> set [0x11B2, 0x11B4]
      \<and> (onset, tense) \<in> set [(0x1100, 0x1101), (0x1103, 0x1104), (0x1109, 0x110A), (0x110C, 0x110D)]
      \<longrightarrow> rieulbieub (xs @ [c, 0x2F, 0x50, onset] @ ys) d
           = rieulbieub xs d @ [c, tense] @ rieulbieub ys d)
   \<and> ((\<forall>c \<in> set [0x11B2, 0x11B4]. \<forall>x \<in> set [0x1100, 0x1103, 0x1109, 0x110C].
          \<not> sublist [c, 0x2F, 0x50, x] inp)
        \<longrightarrow> rieulbieub inp d = inp)"
proof (intro conjI impI)
  assume "c \<in> set [0x11B2, 0x11B4]
      \<and> (onset, tense) \<in> set [(0x1100, 0x1101), (0x1103, 0x1104), (0x1109, 0x110A), (0x110C, 0x110D)]"
  then show "rieulbieub (xs @ [c, 0x2F, 0x50, onset] @ ys) d
           = rieulbieub xs d @ [c, tense] @ rieulbieub ys d"
    by (auto simp: rieulbieub_def rieulbieub_match rieulbieub_pass_occurrence
        rieulbieub_pass_result)
next
  assume a: "\<forall>c \<in> set [0x11B2, 0x11B4]. \<forall>x \<in> set [0x1100, 0x1103, 0x1109, 0x110C].
          \<not> sublist [c, 0x2F, 0x50, x] inp"
  have "re_sub (rieulbieub_pat x t) inp = inp" if "x \<in> set [0x1100, 0x1103, 0x1109, 0x110C]" for x t
    using a that by (intro rieulbieub_pat_absent) blast
  then show "rieulbieub inp d = inp"
    by (simp add: rieulbieub_def)
qed

theorem rieulbieub_tensification_witness:
  "rieulbieub ([0x1102, 0x1165] @ [0x11B2, 0x2F, 0x50, 0x1100] @ [0x1166]) False
     = [0x1102, 0x1165, 0x11B2, 0x1101, 0x1166]
   \<and> rieulbieub [0x1102, 0x1165, 0x11B2] False = [0x1102, 0x1165, 0x11B2]"
proof -
  have a: "\<forall>c \<in> set [0x11B2, 0x11B4]. \<forall>x \<in> set [0x1100, 0x1103, 0x1109, 0x110C].
          \<not> sublist [c, 0x2F, 0x50, x] [0x1102::nat, 0x1165]"
    by (simp add: sublist_Cons_right)
  have b: "\<forall>c \<in> set [0x11B2, 0x11B4]. \<forall>x \<in> set [0x1100, 0x1103, 0x1109, 0x110C].
          \<not> sublist [c, 0x2F, 0x50, x] [0x1166::nat]"
    by (simp add: sublist_Cons_right)
  have c: "\<forall>c \<in> set [0x11B2, 0x11B4]. \<forall>x \<in> set [0x1100, 0x1103, 0x1109, 0x110C].
          \<not> sublist [c, 0x2F, 0x50, x] [0x1102::nat, 0x1165, 0x11B2]"
    by (simp add: sublist_Cons_right)
  show ?thesis
    using rieulbieub_tensification [of "0x11B2" "0x1100" "0x1101" "[0x1102, 0x1165]" "[0x1166]" False
        "[0x1102, 0x1165]"]
      rieulbieub_tensification [of "0x11B2" "0x1100" "0x1101" "[0x1102, 0x1165]" "[0x1166]" False
        "[0x1166]"]
      rieulbieub_tensification [of "0x11B2" "0x1100" "0x1101" "[0x1102, 0x1165]" "[0x1166]" False
        "[0x1102, 0x1165, 0x11B2]"]
      a b c
    by simp
qed

section \<open>The rules that depend on the descriptive flag\<close>





























section \<open>Removal of the particle tag\<close>

lemma tag_head:
  assumes "str_replace [0x2F, 0x4A] [] xs = 0x4A # w"
  shows "prefix [0x4A] xs \<or> prefix [0x2F, 0x4A] xs"
proof (cases xs)
  case Nil
  then show ?thesis using assms by (simp add: str_replace_def)
next
  case (Cons x xs')
  show ?thesis
  proof (cases "prefix [0x2F, 0x4A] xs")
    case True
    then show ?thesis by simp
  next
    case False
    then have "str_replace [0x2F, 0x4A] [] xs = x # str_replace [0x2F, 0x4A] [] xs'"
      using Cons by (auto simp: str_replace_def literal_pat_def)
    then show ?thesis using assms Cons by simp
  qed
qed

lemma tag_clean:
  "\<not> sublist [0x2F, 0x2F, 0x4A] xs \<Longrightarrow> \<not> sublist [0x2F, 0x4A] (str_replace [0x2F, 0x4A] [] xs)"
proof (induction xs rule: length_induct)
  case (1 xs)
  show ?case
  proof (cases xs)
    case Nil
    then show ?thesis by (simp add: str_replace_def)
  next
    case (Cons x xs')
    have n': "\<not> sublist [0x2F, 0x2F, 0x4A] xs'"
      using "1.prems" Cons by (simp add: sublist_Cons_right)
    show ?thesis
    proof (cases "prefix [0x2F, 0x4A] xs")
      case True
      then obtain rest where r: "xs = 0x2F # 0x4A # rest"
        by (auto simp: prefix_def)
      then have "\<not> sublist [0x2F, 0x2F, 0x4A] rest"
        using "1.prems" by (simp add: sublist_Cons_right)
      then have "\<not> sublist [0x2F, 0x4A] (str_replace [0x2F, 0x4A] [] rest)"
        using "1.IH" r by simp
      moreover have "str_replace [0x2F, 0x4A] [] xs = str_replace [0x2F, 0x4A] [] rest"
        using r by (simp add: str_replace_def literal_pat_def)
      ultimately show ?thesis by simp
    next
      case False
      then have e: "str_replace [0x2F, 0x4A] [] xs = x # str_replace [0x2F, 0x4A] [] xs'"
        using Cons by (auto simp: str_replace_def literal_pat_def)
      have ih: "\<not> sublist [0x2F, 0x4A] (str_replace [0x2F, 0x4A] [] xs')"
        using "1.IH" n' Cons by simp
      have "\<not> prefix [0x2F, 0x4A] (x # str_replace [0x2F, 0x4A] [] xs')"
      proof
        assume p: "prefix [0x2F, 0x4A] (x # str_replace [0x2F, 0x4A] [] xs')"
        then have x: "x = 0x2F" by simp
        from p obtain w where "str_replace [0x2F, 0x4A] [] xs' = 0x4A # w"
          by (auto simp: prefix_def)
        then have "prefix [0x4A] xs' \<or> prefix [0x2F, 0x4A] xs'"
          by (rule tag_head)
        then show False
        proof
          assume "prefix [0x4A] xs'"
          then show False using False Cons x by (auto simp: prefix_def)
        next
          assume "prefix [0x2F, 0x4A] xs'"
          then have "prefix [0x2F, 0x2F, 0x4A] xs" using Cons x by simp
          then show False using "1.prems" by (auto simp: sublist_def prefix_def)
        qed
      qed
      then show ?thesis
        using e ih by (simp add: sublist_Cons_right)
    qed
  qed
qed


lemma ui_tag_head:
  "\<exists>w. re_sub (literal_pat [0x110B, 0x1174, 0x2F, 0x4A] [0x110B, 0x1166]) (x # xs) = x # w"
  by (rule re_sub_head) (auto simp: literal_pat_def split: if_splits)

lemma ui_tag_clean:
  "(\<forall>ps ss. xs = ps @ [0x2F, 0x4A] @ ss \<longrightarrow> suffix [0x110B, 0x1174] ps) \<Longrightarrow>
     \<not> sublist [0x2F, 0x4A] (re_sub (literal_pat [0x110B, 0x1174, 0x2F, 0x4A] [0x110B, 0x1166]) xs)"
proof (induction xs rule: length_induct)
  case (1 xs)
  let ?f = "re_sub (literal_pat [0x110B, 0x1174, 0x2F, 0x4A] [0x110B, 0x1166])"
  show ?case
  proof (cases xs)
    case Nil
    then show ?thesis by simp
  next
    case (Cons x xs')
    show ?thesis
    proof (cases "prefix [0x110B, 0x1174, 0x2F, 0x4A] xs")
      case True
      then obtain rest where r: "xs = 0x110B # 0x1174 # 0x2F # 0x4A # rest"
        by (auto simp: prefix_def)
      have "\<forall>ps ss. rest = ps @ [0x2F, 0x4A] @ ss \<longrightarrow> suffix [0x110B, 0x1174] ps"
      proof (intro allI impI)
        fix ps ss assume "rest = ps @ [0x2F, 0x4A] @ ss"
        then have "xs = ([0x110B, 0x1174, 0x2F, 0x4A] @ ps) @ [0x2F, 0x4A] @ ss"
          using r by simp
        then have "suffix [0x110B, 0x1174] ([0x110B, 0x1174, 0x2F, 0x4A] @ ps)"
          by (rule "1.prems" [rule_format])
        then show "suffix [0x110B, 0x1174] ps"
          by (simp add: suffix_Cons)
      qed
      moreover have "length rest < length xs"
        using r by simp
      ultimately have "\<not> sublist [0x2F, 0x4A] (?f rest)"
        using "1.IH" by blast
      moreover have "?f xs = 0x110B # 0x1166 # ?f rest"
        using r by (simp add: literal_pat_def)
      ultimately show ?thesis
        by (simp add: sublist_Cons_right)
    next
      case False
      then have e: "?f xs = x # ?f xs'"
        using Cons by (auto simp: literal_pat_def)
      have "\<forall>ps ss. xs' = ps @ [0x2F, 0x4A] @ ss \<longrightarrow> suffix [0x110B, 0x1174] ps"
      proof (intro allI impI)
        fix ps ss assume a: "xs' = ps @ [0x2F, 0x4A] @ ss"
        then have "xs = (x # ps) @ [0x2F, 0x4A] @ ss"
          using Cons by simp
        then have "suffix [0x110B, 0x1174] (x # ps)"
          by (rule "1.prems" [rule_format])
        then have "[0x110B, 0x1174] = x # ps \<or> suffix [0x110B, 0x1174] ps"
          by (simp add: suffix_Cons)
        moreover have "[0x110B, 0x1174] \<noteq> x # ps"
        proof
          assume "[0x110B, 0x1174] = x # ps"
          then have "xs = 0x110B # 0x1174 # 0x2F # 0x4A # ss"
            using Cons a by auto
          then show False using False by simp
        qed
        ultimately show "suffix [0x110B, 0x1174] ps" by blast
      qed
      moreover have "length xs' < length xs"
        using Cons by simp
      ultimately have ih: "\<not> sublist [0x2F, 0x4A] (?f xs')"
        using "1.IH" by blast
      have "\<not> prefix [0x2F, 0x4A] (x # ?f xs')"
      proof
        assume p: "prefix [0x2F, 0x4A] (x # ?f xs')"
        then have x: "x = 0x2F" by simp
        from p obtain w where w: "?f xs' = 0x4A # w"
          by (auto simp: prefix_def)
        then obtain y ys where y: "xs' = y # ys"
          by (cases xs') auto
        then obtain w' where "?f xs' = y # w'"
          using ui_tag_head by blast
        then have "y = 0x4A" using w by simp
        then have "xs = [] @ [0x2F, 0x4A] @ ys"
          using Cons x y by simp
        then have "suffix [0x110B, 0x1174] ([] :: nat list)"
          by (rule "1.prems" [rule_format])
        then show False by simp
      qed
      then show ?thesis
        using e ih by (simp add: sublist_Cons_right)
    qed
  qed
qed

text \<open>
  C6 (amended). With descriptive false the output of josa_ui contains no "/J" whenever no
  "/J" of the input directly follows a slash; with descriptive true it contains no "/J"
  whenever every "/J" of the input directly follows U+110B U+1174, which is the only place
  where the tag is meant to stand.
\<close>

theorem josa_ui_removes_tags:
  "(\<not> sublist [0x2F, 0x2F, 0x4A] inp \<longrightarrow> \<not> sublist [0x2F, 0x4A] (josa_ui inp False))
   \<and> ((\<forall>ps ss. inp = ps @ [0x2F, 0x4A] @ ss \<longrightarrow> suffix [0x110B, 0x1174] ps)
        \<longrightarrow> \<not> sublist [0x2F, 0x4A] (josa_ui inp True))"
  using tag_clean [of inp] ui_tag_clean [of inp] by (simp add: josa_ui_def)

theorem josa_ui_removes_tags_witness:
  "\<not> sublist [0x2F, 0x4A] (josa_ui [0x110B, 0x1174, 0x2F, 0x4A] False)
   \<and> \<not> sublist [0x2F, 0x4A] (josa_ui [0x110B, 0x1174, 0x2F, 0x4A] True)"
proof -
  have a: "\<not> sublist [0x2F, 0x2F, 0x4A] [0x110B::nat, 0x1174, 0x2F, 0x4A]"
    by (simp add: sublist_Cons_right)
  have b: "\<forall>ps ss. [0x110B::nat, 0x1174, 0x2F, 0x4A] = ps @ [0x2F, 0x4A] @ ss
                   \<longrightarrow> suffix [0x110B, 0x1174] ps"
    by (auto simp: Cons_eq_append_conv)
  show ?thesis
    using josa_ui_removes_tags [of "[0x110B, 0x1174, 0x2F, 0x4A]"] a b by blast
qed

text \<open>
  C6 as stated fails for both values of the flag: with descriptive true a "/J" that does not
  follow U+110B U+1174 is kept, and with descriptive false the input "//JJ" gives "/J".
\<close>

theorem josa_ui_leaves_tag_counterexample:
  "josa_ui [0x2F, 0x4A] True = [0x2F, 0x4A]
   \<and> josa_ui [0x2F, 0x2F, 0x4A, 0x4A] False = [0x2F, 0x4A]
   \<and> sublist [0x2F, 0x4A] [0x2F, 0x4A :: nat]"
  by (simp add: josa_ui_def str_replace_def literal_pat_def)

section \<open>The names of the letters (jamo)\<close>

lemma jamo_pat_bound:
  "jamo_pat first codas onset s = Some (r, k) \<Longrightarrow> 1 \<le> k \<and> k \<le> length s"
  by (auto simp: jamo_pat_def split: list.splits if_splits)

lemma jamo_pat_local:
  assumes "c \<notin> set codas" "c \<noteq> 0x110B" "s \<noteq> []"
  shows "jamo_pat first codas onset (s @ c # zs) = jamo_pat first codas onset s"
  using assms by (cases s rule: list_cases4) (simp_all add: jamo_pat_def split: list.splits)

lemma jamo_sync:
  assumes "c \<notin> set codas" "c \<noteq> 0x110B"
  shows "re_sub (jamo_pat first codas onset) (xs @ c # zs)
         = re_sub (jamo_pat first codas onset) xs @ re_sub (jamo_pat first codas onset) (c # zs)"
  by (rule re_sub_append) (use assms jamo_pat_bound jamo_pat_local in blast)+

lemma jamo_skip:
  "a \<notin> set first \<Longrightarrow>
     re_sub (jamo_pat first codas onset) (a # zs) = a # re_sub (jamo_pat first codas onset) zs"
  by (simp add: jamo_pat_def split: list.splits)

lemma jamo_skip2:
  "b \<notin> set codas \<Longrightarrow>
     re_sub (jamo_pat first codas onset) (a # b # zs)
     = a # re_sub (jamo_pat first codas onset) (b # zs)"
  by (simp add: jamo_pat_def split: list.splits)

lemma jamo_head: "\<exists>w. re_sub (jamo_pat first codas onset) (x # xs) = x # w"
  by (rule re_sub_head) (auto simp: jamo_pat_def split: list.splits if_splits)

lemma jamo_match:
  assumes "0x1173 \<in> set first" "b \<in> set codas" "0x1173 \<notin> set codas"
  shows "re_sub (jamo_pat first codas onset) (xs @ 0x1173 # b # 0x110B # ys)
         = re_sub (jamo_pat first codas onset) xs @ 0x1173 # onset
           # re_sub (jamo_pat first codas onset) ys"
proof -
  have "re_sub (jamo_pat first codas onset) (0x1173 # b # 0x110B # ys)
        = 0x1173 # onset # re_sub (jamo_pat first codas onset) ys"
    using assms(1,2) by (simp add: jamo_pat_def)
  then show ?thesis
    using jamo_sync [OF assms(3), of first onset xs "b # 0x110B # ys"] by simp
qed

lemma jamo_pass_result:
  assumes "t \<notin> set codas" "t \<notin> set first" "0x1173 \<notin> set codas"
  shows "re_sub (jamo_pat first codas onset) (xs @ 0x1173 # t # ys)
         = re_sub (jamo_pat first codas onset) xs @ 0x1173 # t
           # re_sub (jamo_pat first codas onset) ys"
proof -
  have "re_sub (jamo_pat first codas onset) (0x1173 # t # ys)
        = 0x1173 # t # re_sub (jamo_pat first codas onset) ys"
    using assms(1,2) by (simp add: jamo_skip2 jamo_skip del: re_sub.simps)
  then show ?thesis
    using jamo_sync [OF assms(3), of first onset xs "t # ys"] by simp
qed

lemma jamo_pass_occurrence:
  assumes "b \<notin> set codas" "b \<notin> set first" "0x110B \<notin> set first" "0x1173 \<notin> set codas"
  shows "re_sub (jamo_pat first codas onset) (xs @ 0x1173 # b # 0x110B # ys)
         = re_sub (jamo_pat first codas onset) xs @ 0x1173 # b # 0x110B
           # re_sub (jamo_pat first codas onset) ys"
proof -
  have "re_sub (jamo_pat first codas onset) (0x1173 # b # 0x110B # ys)
        = 0x1173 # b # 0x110B # re_sub (jamo_pat first codas onset) ys"
    using assms(1,2,3) by (simp add: jamo_skip2 jamo_skip del: re_sub.simps)
  then show ?thesis
    using jamo_sync [OF assms(4), of first onset xs "b # 0x110B # ys"] by simp
qed

lemma jamo_pass_occurrence_weak:
  assumes "b \<notin> set codas" "b \<notin> set first" "0x1173 \<notin> set codas"
  shows "\<exists>w. re_sub (jamo_pat first codas onset) (xs @ 0x1173 # b # 0x110B # ys)
         = re_sub (jamo_pat first codas onset) xs @ 0x1173 # b # 0x110B # w"
proof -
  obtain w where "re_sub (jamo_pat first codas onset) (0x110B # ys) = 0x110B # w"
    using jamo_head by blast
  then have "re_sub (jamo_pat first codas onset) (0x1173 # b # 0x110B # ys)
        = 0x1173 # b # 0x110B # w"
    using assms(1,2) by (simp add: jamo_skip2 jamo_skip del: re_sub.simps)
  then show ?thesis
    using jamo_sync [OF assms(3), of first onset xs "b # 0x110B # ys"] by simp
qed


lemma jamo_digeut:
  "jamo (xs @ 0x1173 # 0x11AE # 0x110B # ys) d = jamo xs d @ 0x1173 # 0x1109 # jamo ys d"
  by (simp add: jamo_def jamo_match jamo_pass_result)

lemma jamo_sibilant_codas:
  assumes "b \<in> set [0x11BD, 0x11BE, 0x11C0, 0x11C2]"
  shows "jamo (xs @ 0x1173 # b # 0x110B # ys) d = jamo xs d @ 0x1173 # 0x1109 # jamo ys d"
proof -
  have "b \<notin> set [0x11AE]" "b \<notin> set [0x1100, 0x1173]"
    using assms by auto
  then have "re_sub (jamo_pat [0x1100, 0x1173] [0x11AE] 0x1109) (xs @ 0x1173 # b # 0x110B # ys)
      = re_sub (jamo_pat [0x1100, 0x1173] [0x11AE] 0x1109) xs @ 0x1173 # b # 0x110B
        # re_sub (jamo_pat [0x1100, 0x1173] [0x11AE] 0x1109) ys"
    by (intro jamo_pass_occurrence) simp_all
  then show ?thesis
    using assms by (simp add: jamo_def jamo_match jamo_pass_result)
qed

lemma jamo_kieuk:
  "\<exists>zs. jamo (xs @ 0x1173 # 0x11BF # 0x110B # ys) d = jamo xs d @ 0x1173 # 0x1100 # zs"
proof -
  let ?p1 = "jamo_pat [0x1100, 0x1173] [0x11AE] 0x1109"
  let ?p2 = "jamo_pat [0x110B, 0x1173] [0x11BD, 0x11BE, 0x11C0, 0x11C2] 0x1109"
  let ?p3 = "jamo_pat [0x110B, 0x1173] [0x11BF] 0x1100"
  let ?p4 = "jamo_pat [0x110B, 0x1173] [0x11C1] 0x1107"
  obtain w1 where 1: "re_sub ?p1 (xs @ 0x1173 # 0x11BF # 0x110B # ys)
      = re_sub ?p1 xs @ 0x1173 # 0x11BF # 0x110B # w1"
    using jamo_pass_occurrence_weak [of "0x11BF" "[0x11AE]" "[0x1100, 0x1173]" "0x1109" xs ys]
    by auto
  obtain w2 where 2: "re_sub ?p2 (re_sub ?p1 xs @ 0x1173 # 0x11BF # 0x110B # w1)
      = re_sub ?p2 (re_sub ?p1 xs) @ 0x1173 # 0x11BF # 0x110B # w2"
    using jamo_pass_occurrence_weak [of "0x11BF" "[0x11BD, 0x11BE, 0x11C0, 0x11C2]"
        "[0x110B, 0x1173]" "0x1109" "re_sub ?p1 xs" w1]
    by auto
  have 3: "re_sub ?p3 (re_sub ?p2 (re_sub ?p1 xs) @ 0x1173 # 0x11BF # 0x110B # w2)
      = re_sub ?p3 (re_sub ?p2 (re_sub ?p1 xs)) @ 0x1173 # 0x1100 # re_sub ?p3 w2"
    by (intro jamo_match) simp_all
  have 4: "re_sub ?p4 (re_sub ?p3 (re_sub ?p2 (re_sub ?p1 xs)) @ 0x1173 # 0x1100 # re_sub ?p3 w2)
      = re_sub ?p4 (re_sub ?p3 (re_sub ?p2 (re_sub ?p1 xs))) @ 0x1173 # 0x1100
        # re_sub ?p4 (re_sub ?p3 w2)"
    by (intro jamo_pass_result) simp_all
  have "jamo (xs @ 0x1173 # 0x11BF # 0x110B # ys) d
      = jamo xs d @ 0x1173 # 0x1100 # re_sub ?p4 (re_sub ?p3 w2)"
    unfolding jamo_def Let_def 1 2 3 4 ..
  then show ?thesis ..
qed

lemma jamo_pieup:
  "\<exists>zs. jamo (xs @ 0x1173 # 0x11C1 # 0x110B # ys) d = jamo xs d @ 0x1173 # 0x1107 # zs"
proof -
  let ?p1 = "jamo_pat [0x1100, 0x1173] [0x11AE] 0x1109"
  let ?p2 = "jamo_pat [0x110B, 0x1173] [0x11BD, 0x11BE, 0x11C0, 0x11C2] 0x1109"
  let ?p3 = "jamo_pat [0x110B, 0x1173] [0x11BF] 0x1100"
  let ?p4 = "jamo_pat [0x110B, 0x1173] [0x11C1] 0x1107"
  obtain w1 where 1: "re_sub ?p1 (xs @ 0x1173 # 0x11C1 # 0x110B # ys)
      = re_sub ?p1 xs @ 0x1173 # 0x11C1 # 0x110B # w1"
    using jamo_pass_occurrence_weak [of "0x11C1" "[0x11AE]" "[0x1100, 0x1173]" "0x1109" xs ys]
    by auto
  obtain w2 where 2: "re_sub ?p2 (re_sub ?p1 xs @ 0x1173 # 0x11C1 # 0x110B # w1)
      = re_sub ?p2 (re_sub ?p1 xs) @ 0x1173 # 0x11C1 # 0x110B # w2"
    using jamo_pass_occurrence_weak [of "0x11C1" "[0x11BD, 0x11BE, 0x11C0, 0x11C2]"
        "[0x110B, 0x1173]" "0x1109" "re_sub ?p1 xs" w1]
    by auto
  obtain w3 where 3: "re_sub ?p3 (re_sub ?p2 (re_sub ?p1 xs) @ 0x1173 # 0x11C1 # 0x110B # w2)
      = re_sub ?p3 (re_sub ?p2 (re_sub ?p1 xs)) @ 0x1173 # 0x11C1 # 0x110B # w3"
    using jamo_pass_occurrence_weak [of "0x11C1" "[0x11BF]"
        "[0x110B, 0x1173]" "0x1100" "re_sub ?p2 (re_sub ?p1 xs)" w2]
    by auto
  have 4: "re_sub ?p4 (re_sub ?p3 (re_sub ?p2 (re_sub ?p1 xs)) @ 0x1173 # 0x11C1 # 0x110B # w3)
      = re_sub ?p4 (re_sub ?p3 (re_sub ?p2 (re_sub ?p1 xs))) @ 0x1173 # 0x1107 # re_sub ?p4 w3"
    by (intro jamo_match) simp_all
  have "jamo (xs @ 0x1173 # 0x11C1 # 0x110B # ys) d
      = jamo xs d @ 0x1173 # 0x1107 # re_sub ?p4 w3"
    unfolding jamo_def Let_def 1 2 3 4 ..
  then show ?thesis ..
qed

lemma jamo_keep_pass:
  assumes "v \<notin> set first" "v \<notin> set codas" "v \<noteq> 0x110B" "b \<notin> set first"
  shows "\<exists>w. re_sub (jamo_pat first codas onset) (xs @ v # b # 0x110B # ys)
         = re_sub (jamo_pat first codas onset) xs @ v # b # 0x110B # w"
proof -
  obtain w where "re_sub (jamo_pat first codas onset) (0x110B # ys) = 0x110B # w"
    using jamo_head by blast
  then have "re_sub (jamo_pat first codas onset) (v # b # 0x110B # ys) = v # b # 0x110B # w"
    using assms(1,4) by (simp add: jamo_skip del: re_sub.simps)
  then show ?thesis
    using jamo_sync [OF assms(2,3), of first onset xs "b # 0x110B # ys"] by simp
qed

lemma jamo_other_vowel:
  assumes v: "0x1161 \<le> v" "v \<le> 0x1175" "v \<noteq> 0x1173"
    and b: "b \<in> set [0x11AE, 0x11BD, 0x11BE, 0x11C0, 0x11C2, 0x11BF, 0x11C1]"
  shows "\<exists>zs. jamo (xs @ v # b # 0x110B # ys) d = jamo xs d @ v # b # 0x110B # zs"
proof -
  let ?p1 = "jamo_pat [0x1100, 0x1173] [0x11AE] 0x1109"
  let ?p2 = "jamo_pat [0x110B, 0x1173] [0x11BD, 0x11BE, 0x11C0, 0x11C2] 0x1109"
  let ?p3 = "jamo_pat [0x110B, 0x1173] [0x11BF] 0x1100"
  let ?p4 = "jamo_pat [0x110B, 0x1173] [0x11C1] 0x1107"
  have vf: "v \<notin> set [0x1100, 0x1173]" "v \<notin> set [0x110B, 0x1173]" "v \<noteq> 0x110B"
    using v by auto
  have vc: "v \<notin> set [0x11AE]" "v \<notin> set [0x11BD, 0x11BE, 0x11C0, 0x11C2]"
    "v \<notin> set [0x11BF]" "v \<notin> set [0x11C1]"
    using v by auto
  have bf: "b \<notin> set [0x1100, 0x1173]" "b \<notin> set [0x110B, 0x1173]"
    using b by auto
  obtain w1 where 1: "re_sub ?p1 (xs @ v # b # 0x110B # ys)
      = re_sub ?p1 xs @ v # b # 0x110B # w1"
    using jamo_keep_pass [OF vf(1) vc(1) vf(3) bf(1)] by blast
  obtain w2 where 2: "re_sub ?p2 (re_sub ?p1 xs @ v # b # 0x110B # w1)
      = re_sub ?p2 (re_sub ?p1 xs) @ v # b # 0x110B # w2"
    using jamo_keep_pass [OF vf(2) vc(2) vf(3) bf(2)] by blast
  obtain w3 where 3: "re_sub ?p3 (re_sub ?p2 (re_sub ?p1 xs) @ v # b # 0x110B # w2)
      = re_sub ?p3 (re_sub ?p2 (re_sub ?p1 xs)) @ v # b # 0x110B # w3"
    using jamo_keep_pass [OF vf(2) vc(3) vf(3) bf(2)] by blast
  obtain w4 where 4: "re_sub ?p4 (re_sub ?p3 (re_sub ?p2 (re_sub ?p1 xs)) @ v # b # 0x110B # w3)
      = re_sub ?p4 (re_sub ?p3 (re_sub ?p2 (re_sub ?p1 xs))) @ v # b # 0x110B # w4"
    using jamo_keep_pass [OF vf(2) vc(4) vf(3) bf(2)] by blast
  have "jamo (xs @ v # b # 0x110B # ys) d = jamo xs d @ v # b # 0x110B # w4"
    unfolding jamo_def Let_def 1 2 3 4 ..
  then show ?thesis ..
qed

text \<open>
  C7 (amended). For every input, jamo (regulation 16) rewrites a final consonant followed by
  the null initial U+110B directly after the vowel U+1173 into an initial consonant: the
  final U+11AE becomes the initial U+1109, the finals U+11BD, U+11BE, U+11C0 and U+11C2
  become U+1109, the final U+11BF becomes U+1100 and the final U+11C1 becomes U+1107.
  Directly after U+1175, and after every other vowel U+1161..U+1175 than U+1173, each of
  these seven finals and the U+110B after it are kept. The text before the occurrence is
  treated on its own; so is the text after it in the first two cases.
\<close>

theorem jamo_letter_names:
  "jamo (xs @ [0x1173, 0x11AE, 0x110B] @ ys) d = jamo xs d @ [0x1173, 0x1109] @ jamo ys d
   \<and> (b \<in> set [0x11BD, 0x11BE, 0x11C0, 0x11C2]
      \<longrightarrow> jamo (xs @ [0x1173, b, 0x110B] @ ys) d = jamo xs d @ [0x1173, 0x1109] @ jamo ys d)
   \<and> (\<exists>zs. jamo (xs @ [0x1173, 0x11BF, 0x110B] @ ys) d = jamo xs d @ [0x1173, 0x1100] @ zs)
   \<and> (\<exists>zs. jamo (xs @ [0x1173, 0x11C1, 0x110B] @ ys) d = jamo xs d @ [0x1173, 0x1107] @ zs)
   \<and> (0x1161 \<le> v \<and> v \<le> 0x1175 \<and> v \<noteq> 0x1173
        \<and> c \<in> set [0x11AE, 0x11BD, 0x11BE, 0x11C0, 0x11C2, 0x11BF, 0x11C1]
      \<longrightarrow> (\<exists>zs. jamo (xs @ [v, c, 0x110B] @ ys) d = jamo xs d @ [v, c, 0x110B] @ zs))"
proof (intro conjI impI)
  show "jamo (xs @ [0x1173, 0x11AE, 0x110B] @ ys) d = jamo xs d @ [0x1173, 0x1109] @ jamo ys d"
    using jamo_digeut [of xs ys d] by simp
next
  assume "b \<in> set [0x11BD, 0x11BE, 0x11C0, 0x11C2]"
  then show "jamo (xs @ [0x1173, b, 0x110B] @ ys) d = jamo xs d @ [0x1173, 0x1109] @ jamo ys d"
    using jamo_sibilant_codas [of b xs ys d] by simp
next
  show "\<exists>zs. jamo (xs @ [0x1173, 0x11BF, 0x110B] @ ys) d = jamo xs d @ [0x1173, 0x1100] @ zs"
    using jamo_kieuk [of xs ys d] by simp
next
  show "\<exists>zs. jamo (xs @ [0x1173, 0x11C1, 0x110B] @ ys) d = jamo xs d @ [0x1173, 0x1107] @ zs"
    using jamo_pieup [of xs ys d] by simp
next
  assume "0x1161 \<le> v \<and> v \<le> 0x1175 \<and> v \<noteq> 0x1173
        \<and> c \<in> set [0x11AE, 0x11BD, 0x11BE, 0x11C0, 0x11C2, 0x11BF, 0x11C1]"
  then have "\<exists>zs. jamo (xs @ v # c # 0x110B # ys) d = jamo xs d @ v # c # 0x110B # zs"
    by (intro jamo_other_vowel) blast+
  then show "\<exists>zs. jamo (xs @ [v, c, 0x110B] @ ys) d = jamo xs d @ [v, c, 0x110B] @ zs"
    by simp
qed

theorem jamo_letter_names_witness:
  "jamo [0x1100, 0x1173, 0x11AE, 0x110B] False = [0x1100, 0x1173, 0x1109]
   \<and> jamo [0x1173, 0x11BD, 0x110B] False = [0x1173, 0x1109]
   \<and> (\<exists>zs. jamo [0x1175, 0x11AE, 0x110B] False = [0x1175, 0x11AE, 0x110B] @ zs)"
proof -
  have e: "jamo [] False = []" "jamo [0x1100] False = [0x1100]"
    by (simp_all add: jamo_def jamo_pat_def)
  note A = jamo_letter_names [where xs = "[0x1100]" and ys = "[]" and d = False
      and b = "0x11BD" and v = "0x1175" and c = "0x11AE"]
  note B = jamo_letter_names [where xs = "[]" and ys = "[]" and d = False
      and b = "0x11BD" and v = "0x1175" and c = "0x11AE"]
  have w1: "jamo [0x1100, 0x1173, 0x11AE, 0x110B] False = [0x1100, 0x1173, 0x1109]"
    using A [THEN conjunct1] e by simp
  have w2: "jamo [0x1173, 0x11BD, 0x110B] False = [0x1173, 0x1109]"
    using B [THEN conjunct2, THEN conjunct1] e by simp
  have w3: "\<exists>zs. jamo [0x1175, 0x11AE, 0x110B] False = [0x1175, 0x11AE, 0x110B] @ zs"
    using B [THEN conjunct2, THEN conjunct2, THEN conjunct2, THEN conjunct2] e by simp
  show ?thesis
    using w1 w2 w3 by blast
qed

text \<open>
  C7 as stated fails for the vowel U+1175: U+1175 U+11AE U+110B is returned unchanged.
\<close>

theorem jamo_vowel_i_counterexample:
  "jamo [0x1175, 0x11AE, 0x110B] False = [0x1175, 0x11AE, 0x110B]"
  by (simp add: jamo_def jamo_pat_def)

section \<open>The lexical exceptions of balb\<close>

lemma balb_pat1_differs:
  "balb_pat1 xs \<noteq> balb_pat1_eos xs \<Longrightarrow> xs = [0x1107, 0x1161, 0x11B2, 0x0A]"
  by (auto simp: balb_pat1_def balb_pat1_eos_def split: list.splits if_splits)

lemma balb_pat1_eos_bound:
  "balb_pat1_eos s = Some (r, k) \<Longrightarrow> 1 \<le> k \<and> k \<le> length s"
  by (auto simp: balb_pat1_eos_def split: list.splits if_splits)

lemma balb_pat1_bound:
  "balb_pat1 s = Some (r, k) \<Longrightarrow> 1 \<le> k \<and> k \<le> length s"
  by (auto simp: balb_pat1_def split: list.splits if_splits)

lemma re_sub_balb_pat1: "re_sub balb_pat1 xs = re_sub balb_pat1_eos xs"
proof (induction xs rule: length_induct)
  case (1 xs)
  show ?case
  proof (cases "balb_pat1 xs = balb_pat1_eos xs")
    case False
    then have "xs = [0x1107, 0x1161, 0x11B2, 0x0A]"
      by (rule balb_pat1_differs)
    then show ?thesis
      by (simp add: balb_pat1_def balb_pat1_eos_def)
  next
    case True
    show ?thesis
    proof (cases xs)
      case Nil
      then show ?thesis by simp
    next
      case (Cons x xs')
      show ?thesis
      proof (cases "balb_pat1 xs")
        case None
        then show ?thesis
          using True Cons "1.IH" by simp
      next
        case (Some a)
        obtain r k where a: "a = (r, k)" by (cases a)
        have "length (drop (k - 1) xs') < length xs"
          using Cons by simp
        then have "re_sub balb_pat1 (drop (k - 1) xs') = re_sub balb_pat1_eos (drop (k - 1) xs')"
          using "1.IH" by blast
        then show ?thesis
          using True Cons Some a by simp
      qed
    qed
  qed
qed


lemma balb_eq: "balb inp d = re_sub balb_pat2 (re_sub balb_pat1_eos inp)"
  by (simp add: balb_def re_sub_balb_pat1)

lemma balb1_skip:
  "a \<noteq> 0x1107 \<Longrightarrow> re_sub balb_pat1_eos (a # zs) = a # re_sub balb_pat1_eos zs"
  by (simp add: balb_pat1_eos_def split: list.splits)

lemma balb2_skip:
  "a \<noteq> 0x1102 \<Longrightarrow> re_sub balb_pat2 (a # zs) = a # re_sub balb_pat2 zs"
  by (simp add: balb_pat2_def split: list.splits)

lemma balb1_local:
  assumes "y \<notin> set [0x1161, 0x11B2, 0x110B, 0x1112]" "balb_pat1_eos (y # ys') = None" "s \<noteq> []"
  shows "balb_pat1_eos (s @ y # ys') = balb_pat1_eos s
         \<or> (\<exists>r z zs. y # ys' = z # zs \<and> balb_pat1_eos s = Some (r, length s)
               \<and> balb_pat1_eos (s @ y # ys') = Some (r @ [z], Suc (length s))
               \<and> balb_pat1_eos (y # ys') = None)"
  using assms by (cases s rule: list_cases4) (auto simp: balb_pat1_eos_def split: list.splits)

lemma balb1_sync:
  assumes "y \<notin> set [0x1161, 0x11B2, 0x110B, 0x1112]" "balb_pat1_eos (y # ys') = None"
  shows "re_sub balb_pat1_eos (xs @ y # ys')
         = re_sub balb_pat1_eos xs @ re_sub balb_pat1_eos (y # ys')"
proof (rule re_sub_append_gen)
  show "\<And>s r k. balb_pat1_eos s = Some (r, k) \<Longrightarrow> 1 \<le> k \<and> k \<le> length s"
    by (rule balb_pat1_eos_bound)
  show "\<And>s. s \<noteq> [] \<Longrightarrow> suffix s xs \<Longrightarrow>
         balb_pat1_eos (s @ y # ys') = balb_pat1_eos s
         \<or> (\<exists>r z zs. y # ys' = z # zs \<and> balb_pat1_eos s = Some (r, length s)
               \<and> balb_pat1_eos (s @ y # ys') = Some (r @ [z], Suc (length s))
               \<and> balb_pat1_eos (y # ys') = None)"
    using assms by (intro balb1_local)
qed

lemma balb1_local_strict:
  assumes "y \<notin> set [0x1161, 0x11B2]" "s \<noteq> [0x1107, 0x1161, 0x11B2]" "s \<noteq> []"
  shows "balb_pat1_eos (s @ y # ys') = balb_pat1_eos s"
  using assms by (cases s rule: list_cases4) (auto simp: balb_pat1_eos_def split: list.splits)

lemma balb1_sync_strict:
  assumes "\<not> suffix [0x1107, 0x1161, 0x11B2] xs" "y \<notin> set [0x1161, 0x11B2]"
  shows "re_sub balb_pat1_eos (xs @ y # ys')
         = re_sub balb_pat1_eos xs @ re_sub balb_pat1_eos (y # ys')"
proof (rule re_sub_append_gen)
  show "\<And>s r k. balb_pat1_eos s = Some (r, k) \<Longrightarrow> 1 \<le> k \<and> k \<le> length s"
    by (rule balb_pat1_eos_bound)
  fix s :: "nat list"
  assume "s \<noteq> []" "suffix s xs"
  then have "balb_pat1_eos (s @ y # ys') = balb_pat1_eos s"
    using assms by (intro balb1_local_strict) auto
  then show "balb_pat1_eos (s @ y # ys') = balb_pat1_eos s
         \<or> (\<exists>r z zs. y # ys' = z # zs \<and> balb_pat1_eos s = Some (r, length s)
               \<and> balb_pat1_eos (s @ y # ys') = Some (r @ [z], Suc (length s))
               \<and> balb_pat1_eos (y # ys') = None)" ..
qed

lemma balb_pat2_bound:
  "balb_pat2 s = Some (r, k) \<Longrightarrow> 1 \<le> k \<and> k \<le> length s"
  by (auto simp: balb_pat2_def split: list.splits if_splits)

lemma balb2_local:
  assumes "y \<notin> set [0x1165, 0x11B2, 0x110C, 0x110D, 0x1103, 0x1104, 0x116E]" "s \<noteq> []"
  shows "balb_pat2 (s @ y # zs) = balb_pat2 s"
  using assms by (cases s rule: list_cases4) (auto simp: balb_pat2_def split: list.splits)

lemma balb2_sync:
  assumes "y \<notin> set [0x1165, 0x11B2, 0x110C, 0x110D, 0x1103, 0x1104, 0x116E]"
  shows "re_sub balb_pat2 (xs @ y # zs) = re_sub balb_pat2 xs @ re_sub balb_pat2 (y # zs)"
  by (rule re_sub_append) (use assms balb_pat2_bound balb2_local in blast)+


lemma balb_at_end:
  assumes "\<not> suffix [0x1107, 0x1161, 0x11B2] xs"
  shows "balb (xs @ [0x1107, 0x1161, 0x11B2]) d = balb xs d @ [0x1107, 0x1161, 0x11B8]"
proof -
  have "re_sub balb_pat1_eos (xs @ 0x1107 # [0x1161, 0x11B2])
        = re_sub balb_pat1_eos xs @ re_sub balb_pat1_eos (0x1107 # [0x1161, 0x11B2])"
    using assms by (intro balb1_sync_strict) simp_all
  moreover have "re_sub balb_pat1_eos (0x1107 # [0x1161, 0x11B2]) = [0x1107, 0x1161, 0x11B8]"
    by (simp add: balb_pat1_eos_def)
  moreover have "re_sub balb_pat2 (re_sub balb_pat1_eos xs @ 0x1107 # [0x1161, 0x11B8])
        = re_sub balb_pat2 (re_sub balb_pat1_eos xs) @ re_sub balb_pat2 (0x1107 # [0x1161, 0x11B8])"
    by (intro balb2_sync) simp
  moreover have "re_sub balb_pat2 (0x1107 # [0x1161, 0x11B8]) = [0x1107, 0x1161, 0x11B8]"
    by (simp add: balb_pat2_def)
  ultimately show ?thesis
    by (simp add: balb_eq)
qed

lemma balb_before_consonant:
  assumes "\<not> suffix [0x1107, 0x1161, 0x11B2] xs" "z \<notin> set [0x110B, 0x1112, 0x1107]"
  shows "balb (xs @ [0x1107, 0x1161, 0x11B2] @ z # ys) d
         = balb xs d @ [0x1107, 0x1161, 0x11B8] @ balb (z # ys) d"
proof -
  have "re_sub balb_pat1_eos (xs @ 0x1107 # 0x1161 # 0x11B2 # z # ys)
        = re_sub balb_pat1_eos xs @ re_sub balb_pat1_eos (0x1107 # 0x1161 # 0x11B2 # z # ys)"
    using assms(1) by (intro balb1_sync_strict) simp_all
  moreover have "re_sub balb_pat1_eos (0x1107 # 0x1161 # 0x11B2 # z # ys)
        = 0x1107 # 0x1161 # 0x11B8 # z # re_sub balb_pat1_eos ys"
    using assms(2) by (simp add: balb_pat1_eos_def)
  moreover have "re_sub balb_pat1_eos (z # ys) = z # re_sub balb_pat1_eos ys"
    using assms(2) by (intro balb1_skip) simp
  moreover have "re_sub balb_pat2 (re_sub balb_pat1_eos xs
                   @ 0x1107 # 0x1161 # 0x11B8 # re_sub balb_pat1_eos (z # ys))
        = re_sub balb_pat2 (re_sub balb_pat1_eos xs)
          @ re_sub balb_pat2 (0x1107 # 0x1161 # 0x11B8 # re_sub balb_pat1_eos (z # ys))"
    by (intro balb2_sync) simp
  moreover have "re_sub balb_pat2 (0x1107 # 0x1161 # 0x11B8 # re_sub balb_pat1_eos (z # ys))
        = 0x1107 # 0x1161 # 0x11B8 # re_sub balb_pat2 (re_sub balb_pat1_eos (z # ys))"
    by (simp add: balb2_skip del: re_sub.simps)
  ultimately show ?thesis
    by (simp add: balb_eq)
qed

lemma balb_before_null_onset:
  assumes "z \<in> set [0x110B, 0x1112]"
  shows "balb (xs @ [0x1107, 0x1161, 0x11B2] @ z # ys) d
         = balb xs d @ [0x1107, 0x1161, 0x11B2] @ balb (z # ys) d"
proof -
  have n: "balb_pat1_eos (0x1107 # 0x1161 # 0x11B2 # z # ys) = None"
    using assms by (auto simp: balb_pat1_eos_def)
  have "re_sub balb_pat1_eos (xs @ 0x1107 # 0x1161 # 0x11B2 # z # ys)
        = re_sub balb_pat1_eos xs @ re_sub balb_pat1_eos (0x1107 # 0x1161 # 0x11B2 # z # ys)"
    using n by (intro balb1_sync) simp_all
  moreover have "re_sub balb_pat1_eos (0x1107 # 0x1161 # 0x11B2 # z # ys)
        = 0x1107 # re_sub balb_pat1_eos (0x1161 # 0x11B2 # z # ys)"
    using n by simp
  moreover have "re_sub balb_pat1_eos (0x1161 # 0x11B2 # z # ys)
        = 0x1161 # 0x11B2 # re_sub balb_pat1_eos (z # ys)"
    by (simp add: balb1_skip del: re_sub.simps)
  moreover have "re_sub balb_pat2 (re_sub balb_pat1_eos xs
                   @ 0x1107 # 0x1161 # 0x11B2 # re_sub balb_pat1_eos (z # ys))
        = re_sub balb_pat2 (re_sub balb_pat1_eos xs)
          @ re_sub balb_pat2 (0x1107 # 0x1161 # 0x11B2 # re_sub balb_pat1_eos (z # ys))"
    by (intro balb2_sync) simp
  moreover have "re_sub balb_pat2 (0x1107 # 0x1161 # 0x11B2 # re_sub balb_pat1_eos (z # ys))
        = 0x1107 # 0x1161 # 0x11B2 # re_sub balb_pat2 (re_sub balb_pat1_eos (z # ys))"
    by (simp add: balb2_skip del: re_sub.simps)
  ultimately show ?thesis
    by (simp add: balb_eq)
qed

lemma balb_neolb:
  assumes "x \<in> set [0x110C, 0x110D, 0x1103, 0x1104]"
  shows "balb (xs @ [0x1102, 0x1165, 0x11B2, x, 0x116E] @ ys) d
         = balb xs d @ [0x1102, 0x1165, 0x11B8, x, 0x116E] @ balb ys d"
proof -
  have x: "x \<noteq> 0x1107"
    using assms by auto
  have "re_sub balb_pat1_eos (xs @ 0x1102 # 0x1165 # 0x11B2 # x # 0x116E # ys)
        = re_sub balb_pat1_eos xs @ re_sub balb_pat1_eos (0x1102 # 0x1165 # 0x11B2 # x # 0x116E # ys)"
    by (intro balb1_sync) (simp_all add: balb_pat1_eos_def)
  moreover have "re_sub balb_pat1_eos (0x1102 # 0x1165 # 0x11B2 # x # 0x116E # ys)
        = 0x1102 # 0x1165 # 0x11B2 # x # 0x116E # re_sub balb_pat1_eos ys"
    using x by (simp add: balb1_skip del: re_sub.simps)
  moreover have "re_sub balb_pat2 (re_sub balb_pat1_eos xs
                   @ 0x1102 # 0x1165 # 0x11B2 # x # 0x116E # re_sub balb_pat1_eos ys)
        = re_sub balb_pat2 (re_sub balb_pat1_eos xs)
          @ re_sub balb_pat2 (0x1102 # 0x1165 # 0x11B2 # x # 0x116E # re_sub balb_pat1_eos ys)"
    by (intro balb2_sync) simp
  moreover have "re_sub balb_pat2 (0x1102 # 0x1165 # 0x11B2 # x # 0x116E # re_sub balb_pat1_eos ys)
        = 0x1102 # 0x1165 # 0x11B8 # x # 0x116E # re_sub balb_pat2 (re_sub balb_pat1_eos ys)"
    using assms by (simp add: balb_pat2_def)
  ultimately show ?thesis
    by (simp add: balb_eq)
qed


lemma balb_pat1_Some:
  "balb_pat1_eos s = Some (r, k) \<Longrightarrow>
     \<exists>rest. s = [0x1107, 0x1161, 0x11B2] @ rest \<and> (rest = [] \<or> hd rest \<notin> set [0x110B, 0x1112])"
  by (auto simp: balb_pat1_eos_def split: list.splits if_splits)

lemma balb_pat2_Some:
  "balb_pat2 s = Some (r, k) \<Longrightarrow>
     \<exists>x rest. s = [0x1102, 0x1165, 0x11B2, x, 0x116E] @ rest
        \<and> x \<in> set [0x110C, 0x110D, 0x1103, 0x1104]"
  by (auto simp: balb_pat2_def split: list.splits if_splits)

lemma balb_unchanged:
  assumes a: "\<forall>ps ss. inp = ps @ [0x1107, 0x1161, 0x11B2] @ ss
                \<longrightarrow> ss \<noteq> [] \<and> hd ss \<in> set [0x110B, 0x1112]"
    and b: "\<forall>ps x ss. inp = ps @ [0x1102, 0x1165, 0x11B2, x, 0x116E] @ ss
                \<longrightarrow> x \<notin> set [0x110C, 0x110D, 0x1103, 0x1104]"
  shows "balb inp d = inp"
proof -
  have 1: "re_sub balb_pat1_eos inp = inp"
  proof (rule re_sub_no_match)
    fix s assume "suffix s inp"
    then obtain ps where ps: "inp = ps @ s"
      by (auto simp: suffix_def)
    show "balb_pat1_eos s = None"
    proof (rule ccontr)
      assume "balb_pat1_eos s \<noteq> None"
      then obtain r k where "balb_pat1_eos s = Some (r, k)"
        by auto
      then obtain rest where r: "s = [0x1107, 0x1161, 0x11B2] @ rest"
        "rest = [] \<or> hd rest \<notin> set [0x110B, 0x1112]"
        using balb_pat1_Some by blast
      have "inp = ps @ [0x1107, 0x1161, 0x11B2] @ rest"
        using ps r(1) by simp
      then have "rest \<noteq> [] \<and> hd rest \<in> set [0x110B, 0x1112]"
        by (rule a [rule_format])
      then show False using r(2) by blast
    qed
  qed
  have 2: "re_sub balb_pat2 inp = inp"
  proof (rule re_sub_no_match)
    fix s assume "suffix s inp"
    then obtain ps where ps: "inp = ps @ s"
      by (auto simp: suffix_def)
    show "balb_pat2 s = None"
    proof (rule ccontr)
      assume "balb_pat2 s \<noteq> None"
      then obtain r k where "balb_pat2 s = Some (r, k)"
        by auto
      then obtain x rest where r: "s = [0x1102, 0x1165, 0x11B2, x, 0x116E] @ rest"
        "x \<in> set [0x110C, 0x110D, 0x1103, 0x1104]"
        using balb_pat2_Some by blast
      have "inp = ps @ [0x1102, 0x1165, 0x11B2, x, 0x116E] @ rest"
        using ps r(1) by simp
      then have "x \<notin> set [0x110C, 0x110D, 0x1103, 0x1104]"
        by (rule b [rule_format])
      then show False using r(2) by blast
    qed
  qed
  show ?thesis
    by (simp add: balb_eq 1 2)
qed

lemma balb2_head: "\<exists>w. re_sub balb_pat2 (x # xs) = x # w"
  by (rule re_sub_head) (auto simp: balb_pat2_def split: list.splits if_splits)

lemma balb_before_any:
  assumes "\<not> suffix [0x1107, 0x1161, 0x11B2] xs" "z \<notin> set [0x110B, 0x1112]"
  shows "\<exists>zs. balb (xs @ [0x1107, 0x1161, 0x11B2] @ z # ys) d
              = balb xs d @ [0x1107, 0x1161, 0x11B8] @ z # zs"
proof -
  have 1: "re_sub balb_pat1_eos (xs @ 0x1107 # 0x1161 # 0x11B2 # z # ys)
        = re_sub balb_pat1_eos xs @ re_sub balb_pat1_eos (0x1107 # 0x1161 # 0x11B2 # z # ys)"
    using assms(1) by (intro balb1_sync_strict) simp_all
  have 2: "re_sub balb_pat1_eos (0x1107 # 0x1161 # 0x11B2 # z # ys)
        = 0x1107 # 0x1161 # 0x11B8 # z # re_sub balb_pat1_eos ys"
    using assms(2) by (simp add: balb_pat1_eos_def)
  have 3: "re_sub balb_pat2 (re_sub balb_pat1_eos xs
                   @ 0x1107 # 0x1161 # 0x11B8 # z # re_sub balb_pat1_eos ys)
        = re_sub balb_pat2 (re_sub balb_pat1_eos xs)
          @ re_sub balb_pat2 (0x1107 # 0x1161 # 0x11B8 # z # re_sub balb_pat1_eos ys)"
    by (intro balb2_sync) simp
  obtain w where w: "re_sub balb_pat2 (z # re_sub balb_pat1_eos ys) = z # w"
    using balb2_head by blast
  have 4: "re_sub balb_pat2 (0x1107 # 0x1161 # 0x11B8 # z # re_sub balb_pat1_eos ys)
        = 0x1107 # 0x1161 # 0x11B8 # z # w"
    using w by (simp add: balb2_skip del: re_sub.simps)
  have "balb (xs @ [0x1107, 0x1161, 0x11B2] @ z # ys) d
        = balb xs d @ [0x1107, 0x1161, 0x11B8] @ z # w"
    by (simp add: balb_eq 1 2 3 4 del: re_sub.simps)
  then show ?thesis ..
qed

text \<open>
  C8 (amended). For every input, balb replaces the final U+11B2 by the final U+11B8 (bieup)
  in U+1107 U+1161 U+11B2 at the end of the string or before any character other than U+110B
  and U+1112, and in U+1102 U+1165 U+11B2 before U+110C, U+110D, U+1103 or U+1104 followed
  by U+116E. For U+1107 U+1161 U+11B2 this is stated for an occurrence that does not
  directly follow another U+1107 U+1161 U+11B2; nothing is stated for one that does. The
  text before an occurrence is treated on its own, and so is the text after it, except that
  after a rewritten U+1107 U+1161 U+11B2 the next character is copied and, when it is
  U+1107, nothing more is stated about what follows. Before U+110B and U+1112 the syllable
  U+1107 U+1161 U+11B2 is kept, and an input in which every U+1107 U+1161 U+11B2 is followed
  by U+110B or U+1112 and no U+1102 U+1165 U+11B2 is followed by one of the four syllables is
  returned unchanged.
\<close>

theorem balb_exceptions:
  "(\<not> suffix [0x1107, 0x1161, 0x11B2] xs
      \<longrightarrow> balb (xs @ [0x1107, 0x1161, 0x11B2]) d = balb xs d @ [0x1107, 0x1161, 0x11B8])
   \<and> (\<not> suffix [0x1107, 0x1161, 0x11B2] xs \<and> z \<notin> set [0x110B, 0x1112, 0x1107]
      \<longrightarrow> balb (xs @ [0x1107, 0x1161, 0x11B2] @ z # ys) d
           = balb xs d @ [0x1107, 0x1161, 0x11B8] @ balb (z # ys) d)
   \<and> (z \<in> set [0x110B, 0x1112]
      \<longrightarrow> balb (xs @ [0x1107, 0x1161, 0x11B2] @ z # ys) d
           = balb xs d @ [0x1107, 0x1161, 0x11B2] @ balb (z # ys) d)
   \<and> (x \<in> set [0x110C, 0x110D, 0x1103, 0x1104]
      \<longrightarrow> balb (xs @ [0x1102, 0x1165, 0x11B2, x, 0x116E] @ ys) d
           = balb xs d @ [0x1102, 0x1165, 0x11B8, x, 0x116E] @ balb ys d)
   \<and> ((\<forall>ps ss. inp = ps @ [0x1107, 0x1161, 0x11B2] @ ss
                \<longrightarrow> ss \<noteq> [] \<and> hd ss \<in> set [0x110B, 0x1112])
       \<and> (\<forall>ps x ss. inp = ps @ [0x1102, 0x1165, 0x11B2, x, 0x116E] @ ss
                \<longrightarrow> x \<notin> set [0x110C, 0x110D, 0x1103, 0x1104])
      \<longrightarrow> balb inp d = inp)
   \<and> (\<not> suffix [0x1107, 0x1161, 0x11B2] xs \<and> z \<notin> set [0x110B, 0x1112]
      \<longrightarrow> (\<exists>zs. balb (xs @ [0x1107, 0x1161, 0x11B2] @ z # ys) d
                 = balb xs d @ [0x1107, 0x1161, 0x11B8] @ z # zs))"
proof (intro conjI impI)
  assume "\<not> suffix [0x1107, 0x1161, 0x11B2] xs"
  then show "balb (xs @ [0x1107, 0x1161, 0x11B2]) d = balb xs d @ [0x1107, 0x1161, 0x11B8]"
    by (rule balb_at_end)
next
  assume "\<not> suffix [0x1107, 0x1161, 0x11B2] xs \<and> z \<notin> set [0x110B, 0x1112, 0x1107]"
  then show "balb (xs @ [0x1107, 0x1161, 0x11B2] @ z # ys) d
           = balb xs d @ [0x1107, 0x1161, 0x11B8] @ balb (z # ys) d"
    using balb_before_consonant [of xs z ys d] by blast
next
  assume "z \<in> set [0x110B, 0x1112]"
  then show "balb (xs @ [0x1107, 0x1161, 0x11B2] @ z # ys) d
           = balb xs d @ [0x1107, 0x1161, 0x11B2] @ balb (z # ys) d"
    by (rule balb_before_null_onset)
next
  assume "x \<in> set [0x110C, 0x110D, 0x1103, 0x1104]"
  then show "balb (xs @ [0x1102, 0x1165, 0x11B2, x, 0x116E] @ ys) d
           = balb xs d @ [0x1102, 0x1165, 0x11B8, x, 0x116E] @ balb ys d"
    by (rule balb_neolb)
next
  assume "(\<forall>ps ss. inp = ps @ [0x1107, 0x1161, 0x11B2] @ ss
                \<longrightarrow> ss \<noteq> [] \<and> hd ss \<in> set [0x110B, 0x1112])
       \<and> (\<forall>ps x ss. inp = ps @ [0x1102, 0x1165, 0x11B2, x, 0x116E] @ ss
                \<longrightarrow> x \<notin> set [0x110C, 0x110D, 0x1103, 0x1104])"
  then show "balb inp d = inp"
    using balb_unchanged [of inp d] by blast
next
  assume "\<not> suffix [0x1107, 0x1161, 0x11B2] xs \<and> z \<notin> set [0x110B, 0x1112]"
  then show "\<exists>zs. balb (xs @ [0x1107, 0x1161, 0x11B2] @ z # ys) d
                 = balb xs d @ [0x1107, 0x1161, 0x11B8] @ z # zs"
    using balb_before_any [of xs z ys d] by blast
qed

text \<open>
  C8 as stated fails: the final that replaces U+11B2 is U+11B8 (bieup), not U+11A8
  (giyeok).
\<close>

theorem balb_coda_is_bieup_counterexample:
  "balb [0x1107, 0x1161, 0x11B2, 0x1103, 0x1161] False = [0x1107, 0x1161, 0x11B8, 0x1103, 0x1161]
   \<and> (0x11B8 :: nat) \<noteq> 0x11A8"
  by (simp add: balb_def balb_pat1_def balb_pat2_def)

theorem balb_exceptions_witness:
  "balb [0x1107, 0x1161, 0x11B2] False = [0x1107, 0x1161, 0x11B8]
   \<and> balb [0x1107, 0x1161, 0x11B2, 0x1103, 0x1161] False = [0x1107, 0x1161, 0x11B8, 0x1103, 0x1161]
   \<and> balb [0x1107, 0x1161, 0x11B2, 0x110B, 0x1161] False = [0x1107, 0x1161, 0x11B2, 0x110B, 0x1161]
   \<and> balb [0x1102, 0x1165, 0x11B2, 0x110C, 0x116E] False = [0x1102, 0x1165, 0x11B8, 0x110C, 0x116E]
   \<and> balb [0x1103, 0x1161] False = [0x1103, 0x1161]
   \<and> (\<exists>zs. balb [0x1107, 0x1161, 0x11B2, 0x1107, 0x1161, 0x11B2] False
             = [0x1107, 0x1161, 0x11B8, 0x1107] @ zs)"
proof -
  note A = balb_exceptions [where xs = "[]" and z = "0x1103" and ys = "[0x1161]" and d = False
      and x = "0x110C" and inp = "[0x1103, 0x1161]"]
  note B = balb_exceptions [where xs = "[]" and z = "0x110B" and ys = "[0x1161]" and d = False
      and x = "0x110C" and inp = "[0x1103, 0x1161]"]
  note C = balb_exceptions [where xs = "[]" and z = "0x110B" and ys = "[]" and d = False
      and x = "0x110C" and inp = "[0x1103, 0x1161]"]
  note D = balb_exceptions [where xs = "[]" and z = "0x1107" and ys = "[0x1161, 0x11B2]"
      and d = False and x = "0x110C" and inp = "[0x1103, 0x1161]"]
  note A2 = A [THEN conjunct2] note A3 = A2 [THEN conjunct2] note A4 = A3 [THEN conjunct2]
  note A5 = A4 [THEN conjunct2]
  note D6 = D [THEN conjunct2, THEN conjunct2, THEN conjunct2, THEN conjunct2, THEN conjunct2]
  have e: "balb [] False = []" "balb [0x110B, 0x1161] False = [0x110B, 0x1161]"
    by (simp_all add: balb_def balb_pat1_def balb_pat2_def)
  have h1: "\<forall>ps ss. [0x1103, 0x1161] = ps @ [0x1107, 0x1161, 0x11B2] @ ss
                \<longrightarrow> ss \<noteq> [] \<and> hd ss \<in> set [0x110B, 0x1112 :: nat]"
    by (auto simp: Cons_eq_append_conv)
  have h2: "\<forall>ps x ss. [0x1103, 0x1161] = ps @ [0x1102, 0x1165, 0x11B2, x, 0x116E] @ ss
                \<longrightarrow> x \<notin> set [0x110C, 0x110D, 0x1103, 0x1104 :: nat]"
    by (auto simp: Cons_eq_append_conv)
  have w5: "balb [0x1103, 0x1161] False = [0x1103, 0x1161]"
    using A5 [THEN conjunct1] h1 h2 by blast
  have w1: "balb [0x1107, 0x1161, 0x11B2] False = [0x1107, 0x1161, 0x11B8]"
    using A [THEN conjunct1] e(1) by simp
  have w2: "balb [0x1107, 0x1161, 0x11B2, 0x1103, 0x1161] False
            = [0x1107, 0x1161, 0x11B8, 0x1103, 0x1161]"
    using A2 [THEN conjunct1] e(1) w5 by simp
  have w3: "balb [0x1107, 0x1161, 0x11B2, 0x110B, 0x1161] False
            = [0x1107, 0x1161, 0x11B2, 0x110B, 0x1161]"
    using B [THEN conjunct2, THEN conjunct2, THEN conjunct1] e by simp
  have w4: "balb [0x1102, 0x1165, 0x11B2, 0x110C, 0x116E] False
            = [0x1102, 0x1165, 0x11B8, 0x110C, 0x116E]"
    using C [THEN conjunct2, THEN conjunct2, THEN conjunct2, THEN conjunct1] e(1) by simp
  have w6: "\<exists>zs. balb [0x1107, 0x1161, 0x11B2, 0x1107, 0x1161, 0x11B2] False
             = [0x1107, 0x1161, 0x11B8, 0x1107] @ zs"
    using D6 e(1) by simp
  show ?thesis
    using w1 w2 w3 w4 w5 w6 by blast
qed


end
